theory Spec2Isabelle
  imports Main "HOL-Library.Word"
begin

section \<open>Hashing of string keys (HashStringToInt)\<close>

text \<open>
  A Go string is a byte sequence, modelled as \<open>string\<close> (a list of 8-bit characters).
  \<open>for _, char := range key\<close> walks the string rune by rune: it decodes UTF-8, and an
  invalid or truncated sequence yields the rune U+FFFD and advances by one byte.
  \<open>DecodeRune\<close> is that decoding step on the byte values (rune and width), \<open>runes_of\<close>
  the sequence of runes the loop sees.
\<close>

definition RuneError :: nat where
  "RuneError = 65533"

fun DecodeRune :: "nat list \<Rightarrow> nat \<times> nat" where
  "DecodeRune [] = (RuneError, 0)"
| "DecodeRune (s0 # rest) =
     (if s0 < 128 then (s0, 1)
      else if s0 < 194 \<or> 244 < s0 then (RuneError, 1)
      else
        let sz = (if s0 < 224 then 2 else if s0 < 240 then 3 else (4::nat));
            lo = (if s0 = 224 then 160 else if s0 = 240 then 144 else (128::nat));
            hi = (if s0 = 237 then 159 else if s0 = 244 then 143 else (191::nat))
        in if length rest + 1 < sz then (RuneError, 1)
           else
             let s1 = rest ! 0 in
             if s1 < lo \<or> hi < s1 then (RuneError, 1)
             else if sz \<le> 2 then ((s0 mod 32) * 64 + s1 mod 64, 2)
             else
               let s2 = rest ! 1 in
               if s2 < 128 \<or> 191 < s2 then (RuneError, 1)
               else if sz \<le> 3
                 then ((s0 mod 16) * 4096 + (s1 mod 64) * 64 + s2 mod 64, 3)
               else
                 let s3 = rest ! 2 in
                 if s3 < 128 \<or> 191 < s3 then (RuneError, 1)
                 else ((s0 mod 8) * 262144 + (s1 mod 64) * 4096
                         + (s2 mod 64) * 64 + s3 mod 64, 4))"

fun runes_of :: "nat list \<Rightarrow> nat list" where
  "runes_of [] = []"
| "runes_of (b # bs) =
     (case DecodeRune (b # bs) of (r, w) \<Rightarrow> r # runes_of (drop (w - 1) bs))"

text \<open>
  Go's \<open>int\<close> is taken as the 64-bit signed integer of the usual platforms. The hash
  starts at 5381 and each rune does \<open>hash = ((hash << 5) + hash) + int(char)\<close> with
  wrap-around; the result is read as a signed value.
\<close>

definition hash_step :: "64 word \<Rightarrow> nat \<Rightarrow> 64 word" where
  "hash_step hash char = (push_bit 5 hash + hash) + of_nat char"

definition HashStringToInt :: "string \<Rightarrow> int" where
  "HashStringToInt key = sint (foldl hash_step 5381 (runes_of (map of_char key)))"


section \<open>The 4-way search tree (btree.go)\<close>

text \<open>
  \<open>Node\<close> is the Go struct, field for field. A \<open>*Node\<close> is \<open>node option\<close> (\<open>None\<close> is
  nil) and a \<open>*string\<close> is \<open>string option\<close>. Every node has one owner, so the in-place
  updates of the Go code are modelled by returning the updated node. The field
  \<open>size\<close> is written \<open>size'\<close>.
\<close>

datatype node = Node
  (cp1: "node option") (key1: int) (rp1: "string option")
  (cp2: "node option") (key2: int) (rp2: "string option")
  (cp3: "node option") (key3: int) (rp3: "string option")
  (cp4: "node option") (size': int)

record splitResult =
  promoted :: bool
  promotedKey :: int
  promotedVal :: "string option"
  newRight :: "node option"

text \<open>The zero value \<open>splitResult{}\<close>.\<close>

definition noSplit :: splitResult where
  "noSplit = \<lparr>promoted = False, promotedKey = 0, promotedVal = None, newRight = None\<rparr>"

text \<open>\<open>&Node{key1: key, rp1: val, size: 1}\<close>\<close>

definition newLeaf :: "int \<Rightarrow> string option \<Rightarrow> node" where
  "newLeaf key val = Node None key val None 0 None None 0 None None 1"

fun insertKeyIntoNode :: "node \<Rightarrow> int \<Rightarrow> string option \<Rightarrow> node" where
  "insertKeyIntoNode (Node c1 k1 r1 c2 k2 r2 c3 k3 r3 c4 sz) key val =
     (if sz = 0 then Node c1 key val c2 k2 r2 c3 k3 r3 c4 1
      else if sz = 1 then
        (if key < k1 then Node c1 key val c2 k1 r1 c3 k3 r3 c4 2
         else Node c1 k1 r1 c2 key val c3 k3 r3 c4 2)
      else if sz = 2 then
        (if key < k1 then Node c1 key val c2 k1 r1 c3 k2 r2 c4 3
         else if key < k2 then Node c1 k1 r1 c2 key val c3 k2 r2 c4 3
         else Node c1 k1 r1 c2 k2 r2 c3 key val c4 3)
      else Node c1 k1 r1 c2 k2 r2 c3 k3 r3 c4 sz)"

definition isLeaf :: "node \<Rightarrow> bool" where
  "isLeaf n = (cp1 n = None \<and> cp2 n = None \<and> cp3 n = None \<and> cp4 n = None)"

fun insertPromotedKey ::
  "node \<Rightarrow> int \<Rightarrow> string option \<Rightarrow> node option \<Rightarrow> nat \<Rightarrow> node" where
  "insertPromotedKey (Node c1 k1 r1 c2 k2 r2 c3 k3 r3 c4 sz) key val newR afterChildIdx =
     (if sz = 1 then
        (if afterChildIdx = 0 then Node c1 key val newR k1 r1 c2 k3 r3 c4 2
         else Node c1 k1 r1 c2 key val newR k3 r3 c4 2)
      else if afterChildIdx = 0 then Node c1 key val newR k1 r1 c2 k2 r2 c3 3
      else if afterChildIdx = 1 then Node c1 k1 r1 c2 key val newR k2 r2 c3 3
      else Node c1 k1 r1 c2 k2 r2 c3 key val newR 3)"

text \<open>
  \<open>splitNode\<close> sorts the three pairs of the node and the new pair with \<open>sort.Slice\<close>; on
  four elements that is an insertion sort, which \<open>sort_key\<close> is. \<open>afterChildIdx\<close> is
  the optional \<open>*int\<close>; \<open>insertKey\<close> only passes 0 to 3. The child slice is built as
  the code does: five slots, the tail shifted right by \<open>copy\<close>, the new child stored at
  \<open>idx\<close>. The result is the node as left in place and the split result.
\<close>

definition splitNode ::
  "node \<Rightarrow> int \<Rightarrow> string option \<Rightarrow> node option \<Rightarrow> nat option \<Rightarrow> node \<times> splitResult" where
  "splitNode n newKey newVal newChild afterChildIdx =
     (let items = sort_key fst
            [(key1 n, rp1 n), (key2 n, rp2 n), (key3 n, rp3 n), (newKey, newVal)];
          k0 = fst (items ! 0); v0 = snd (items ! 0);
          k1 = fst (items ! 1); v1 = snd (items ! 1);
          k2 = fst (items ! 2); v2 = snd (items ! 2);
          k3 = fst (items ! 3); v3 = snd (items ! 3)
      in case afterChildIdx of
           Some i \<Rightarrow>
             let children0 = [cp1 n, cp2 n, cp3 n, cp4 n, None];
                 idx = i + 1;
                 shifted = take (idx + 1) children0
                             @ take (5 - (idx + 1)) (drop idx children0);
                 children = shifted[idx := newChild]
             in (Node (children ! 0) k0 v0 (children ! 1) 0 None None 0 None None 1,
                 \<lparr>promoted = True, promotedKey = k1, promotedVal = v1,
                  newRight = Some (Node (children ! 2) k2 v2 (children ! 3) k3 v3
                                        (children ! 4) 0 None None 2)\<rparr>)
         | None \<Rightarrow>
             (Node None k0 v0 None 0 None None 0 None None 1,
              \<lparr>promoted = True, promotedKey = k1, promotedVal = v1,
               newRight = Some (Node None k2 v2 None k3 v3 None 0 None None 2)\<rparr>))"

text \<open>Assignment through \<open>child\<close>, the pointer to one of the four child slots.\<close>

definition setChild :: "node \<Rightarrow> nat \<Rightarrow> node option \<Rightarrow> node" where
  "setChild node childIdx child =
     (if childIdx = 0 then
        Node child (key1 node) (rp1 node) (cp2 node) (key2 node) (rp2 node)
             (cp3 node) (key3 node) (rp3 node) (cp4 node) (size' node)
      else if childIdx = 1 then
        Node (cp1 node) (key1 node) (rp1 node) child (key2 node) (rp2 node)
             (cp3 node) (key3 node) (rp3 node) (cp4 node) (size' node)
      else if childIdx = 2 then
        Node (cp1 node) (key1 node) (rp1 node) (cp2 node) (key2 node) (rp2 node)
             child (key3 node) (rp3 node) (cp4 node) (size' node)
      else
        Node (cp1 node) (key1 node) (rp1 node) (cp2 node) (key2 node) (rp2 node)
             (cp3 node) (key3 node) (rp3 node) child (size' node))"

text \<open>
  The part of \<open>insertKey\<close> after the recursive call \<open>res := db.insertKey(*child, ...)\<close>:
  the child was updated in place, \<open>childIdx\<close> is its slot.
\<close>

definition afterChild ::
  "node \<Rightarrow> nat \<Rightarrow> int \<times> node \<times> splitResult \<Rightarrow> int \<times> node \<times> splitResult" where
  "afterChild node childIdx r =
     (case r of (Size, child, res) \<Rightarrow>
        let node1 = setChild node childIdx (Some child) in
        if \<not> promoted res then (Size, node1, noSplit)
        else if size' node < 3 then
          (Size, insertPromotedKey node1 (promotedKey res) (promotedVal res)
                   (newRight res) childIdx, noSplit)
        else
          (case splitNode node1 (promotedKey res) (promotedVal res) (newRight res)
                  (Some childIdx)
           of (node2, res2) \<Rightarrow> (Size, node2, res2)))"

text \<open>
  \<open>insertKey\<close> threads \<open>db.Size\<close>, which the Go code increments in place, and returns
  it with the updated node and the split result. The four branches are the
  \<open>switch\<close> that picks the child slot; a nil slot gets a fresh one-key node.
\<close>

fun insertKey :: "int \<Rightarrow> node \<Rightarrow> int \<Rightarrow> string option \<Rightarrow> int \<times> node \<times> splitResult" where
  "insertKey Size (Node c1 k1 r1 c2 k2 r2 c3 k3 r3 c4 sz) key val =
     (let node = Node c1 k1 r1 c2 k2 r2 c3 k3 r3 c4 sz in
      if isLeaf node then
        (if sz < 3 then (Size + 1, insertKeyIntoNode node key val, noSplit)
         else (case splitNode node key val None None of
                 (node', res) \<Rightarrow> (Size + 1, node', res)))
      else if key < k1 then
        (case c1 of
           None \<Rightarrow> (Size + 1, setChild node 0 (Some (newLeaf key val)), noSplit)
         | Some ch \<Rightarrow> afterChild node 0 (insertKey Size ch key val))
      else if sz = 1 \<or> key < k2 then
        (case c2 of
           None \<Rightarrow> (Size + 1, setChild node 1 (Some (newLeaf key val)), noSplit)
         | Some ch \<Rightarrow> afterChild node 1 (insertKey Size ch key val))
      else if sz = 2 \<or> key < k3 then
        (case c3 of
           None \<Rightarrow> (Size + 1, setChild node 2 (Some (newLeaf key val)), noSplit)
         | Some ch \<Rightarrow> afterChild node 2 (insertKey Size ch key val))
      else
        (case c4 of
           None \<Rightarrow> (Size + 1, setChild node 3 (Some (newLeaf key val)), noSplit)
         | Some ch \<Rightarrow> afterChild node 3 (insertKey Size ch key val)))"


section \<open>The write-ahead log\<close>

text \<open>
  One record of the log, one JSON line of the file. \<open>int64\<close> fields are 64-bit
  words, compared as signed values.
\<close>

record WALOperation =
  Seq :: "64 word"
  Operation :: string
  Key :: string
  Value :: string
  Timestamp :: "64 word"

text \<open>
  \<open>encoding/json\<close> is outside the repository: \<open>json.Marshal\<close> and \<open>json.Unmarshal\<close> on a
  \<open>WALOperation\<close> are parameters of the model. \<open>Marshal\<close> gives the bytes or fails,
  \<open>Unmarshal\<close> gives the decoded record when it returns a nil error.
\<close>

record json =
  Marshal :: "WALOperation \<Rightarrow> string option"
  Unmarshal :: "string \<Rightarrow> WALOperation option"

text \<open>
  The operating system as the log sees it: the regular files by path, the paths on
  which opening fails for a reason other than absence, whether a write and a sync
  fail, and the clock read by \<open>time.Now().UnixNano()\<close>.
\<close>

record world =
  files :: "string \<Rightarrow> string option"
  open_fails :: "string \<Rightarrow> bool"
  write_fails :: bool
  sync_fails :: bool
  now :: "64 word"

datatype handle = Open | Closed

datatype error =
  OpenError | MarshalError | WriteError | SyncError | CloseError | ScanError

text \<open>
  The \<open>*os.File\<close> of the log is \<open>None\<close> for nil, otherwise an open or a closed handle
  on \<open>filePath\<close>; the field \<open>file\<close> is written \<open>file'\<close>. The mutex is left out:
  the model is sequential.
\<close>

record WAL =
  file' :: "handle option"
  seq :: "64 word"
  filePath :: string

subsection \<open>Reading the file line by line\<close>

text \<open>
  \<open>bufio.Scanner\<close> with its default split function and buffer: a token is a line
  without its newline and without one trailing carriage return; a last line with no
  newline is a token when it is not empty; a line that does not fit the buffer of
  \<open>MaxScanTokenSize\<close> bytes together with its newline stops the scan with an error.
  \<open>scanLines\<close> gives the tokens of the successive \<open>Scan()\<close> calls and whether \<open>Err()\<close>
  is set afterwards.
\<close>

definition MaxScanTokenSize :: nat where
  "MaxScanTokenSize = 64 * 1024"

definition newline :: char where
  "newline = CHR 0x0A"

definition dropCR :: "string \<Rightarrow> string" where
  "dropCR data = (if data \<noteq> [] \<and> last data = CHR 0x0D then butlast data else data)"

function scanLines :: "string \<Rightarrow> string list \<times> bool" where
  "scanLines [] = ([], False)"
| "scanLines (c # cs) =
     (let line = takeWhile (\<lambda>x. x \<noteq> newline) (c # cs);
          rest = dropWhile (\<lambda>x. x \<noteq> newline) (c # cs)
      in if MaxScanTokenSize \<le> length line then ([], True)
         else (case rest of
                 [] \<Rightarrow> ([dropCR line], False)
               | nl # rest' \<Rightarrow>
                   (case scanLines rest' of (ts, err) \<Rightarrow> (dropCR line # ts, err))))"
  by pat_completeness auto
termination
proof (relation "measure length")
  fix c cs line rest nl rest'
  assume "rest = dropWhile (\<lambda>x. x \<noteq> newline) (c # cs)" and "rest = nl # rest'"
  then have "length (nl # rest') \<le> length (c # cs)"
    by (metis length_dropWhile_le)
  then show "(rest', c # cs) \<in> measure length" by simp
qed simp

subsection \<open>Opening files\<close>

datatype open_result = NotExist | OpenFailed | Opened string

text \<open>\<open>os.Open\<close>: read-only, the file must exist.\<close>

definition os_Open :: "world \<Rightarrow> string \<Rightarrow> open_result" where
  "os_Open W path =
     (case files W path of
        None \<Rightarrow> NotExist
      | Some content \<Rightarrow> if open_fails W path then OpenFailed else Opened content)"

text \<open>\<open>os.OpenFile\<close> with \<open>O_CREATE\<close>; \<open>trunc\<close> is \<open>O_TRUNC\<close>. \<open>None\<close> is the error.\<close>

definition os_OpenFile :: "world \<Rightarrow> string \<Rightarrow> bool \<Rightarrow> world option" where
  "os_OpenFile W path trunc =
     (if open_fails W path then None
      else if trunc \<or> files W path = None
        then Some (W\<lparr>files := (files W)(path \<mapsto> [])\<rparr>)
      else Some W)"

text \<open>A successful write through the handle of the log: the bytes go to the end.\<close>

definition append_file :: "world \<Rightarrow> string \<Rightarrow> string \<Rightarrow> world" where
  "append_file W path data =
     W\<lparr>files := (files W)(path \<mapsto>
          (case files W path of None \<Rightarrow> data | Some content \<Rightarrow> content @ data))\<rparr>"

subsection \<open>NewWAL, getLastSequence, Log, Recover, Close, Truncate\<close>

fun lastSeq_loop :: "json \<Rightarrow> string list \<Rightarrow> 64 word \<Rightarrow> 64 word" where
  "lastSeq_loop J [] lastSeq = lastSeq"
| "lastSeq_loop J (l # ls) lastSeq =
     (case Unmarshal J l of
        Some entry \<Rightarrow>
          if sint (Seq entry) > sint lastSeq then lastSeq_loop J ls (Seq entry)
          else lastSeq_loop J ls lastSeq
      | None \<Rightarrow> lastSeq_loop J ls lastSeq)"

text \<open>The result is the pair \<open>(lastSeq, err)\<close> of the Go function.\<close>

definition getLastSequence :: "json \<Rightarrow> world \<Rightarrow> WAL \<Rightarrow> 64 word \<times> error option" where
  "getLastSequence J W w =
     (case os_Open W (filePath w) of
        Opened content \<Rightarrow> (lastSeq_loop J (fst (scanLines content)) 0, None)
      | _ \<Rightarrow> (0, Some OpenError))"

definition NewWAL :: "json \<Rightarrow> world \<Rightarrow> string \<Rightarrow> (error + WAL) \<times> world" where
  "NewWAL J W path =
     (case os_OpenFile W path False of
        None \<Rightarrow> (Inl OpenError, W)
      | Some W1 \<Rightarrow>
          let wal = \<lparr>file' = Some Open, seq = 0, filePath = path\<rparr>
          in (Inr (wal\<lparr>seq := fst (getLastSequence J W1 wal)\<rparr>), W1))"

text \<open>
  \<open>Log\<close> returns the error (\<open>None\<close> is nil), the log and the world as it leaves them.
  The counter is incremented before anything can fail. A write on a nil or closed
  handle fails; a failed write leaves the file as it was, a failed sync comes after
  the bytes were appended.
\<close>

definition Log ::
  "json \<Rightarrow> WAL \<Rightarrow> world \<Rightarrow> string \<Rightarrow> string \<Rightarrow> string \<Rightarrow> error option \<times> WAL \<times> world" where
  "Log J w W operation key val =
     (let w1 = w\<lparr>seq := seq w + 1\<rparr>;
          entry = \<lparr>Seq = seq w1, Operation = operation, Key = key, Value = val,
                   Timestamp = now W\<rparr>
      in case Marshal J entry of
           None \<Rightarrow> (Some MarshalError, w1, W)
         | Some data \<Rightarrow>
             if file' w1 = Some Open then
               (if write_fails W then (Some WriteError, w1, W)
                else
                  let W1 = append_file W (filePath w1) (data @ [newline])
                  in if sync_fails W then (Some SyncError, w1, W1) else (None, w1, W1))
             else (Some WriteError, w1, W))"

fun Recover_loop :: "json \<Rightarrow> string list \<Rightarrow> WALOperation list \<Rightarrow> WALOperation list" where
  "Recover_loop J [] operations = operations"
| "Recover_loop J (l # ls) operations =
     (case Unmarshal J l of
        None \<Rightarrow> Recover_loop J ls operations
      | Some entry \<Rightarrow> Recover_loop J ls (operations @ [entry]))"

definition Recover :: "json \<Rightarrow> WAL \<Rightarrow> world \<Rightarrow> error + WALOperation list" where
  "Recover J w W =
     (case os_Open W (filePath w) of
        NotExist \<Rightarrow> Inr []
      | OpenFailed \<Rightarrow> Inl OpenError
      | Opened content \<Rightarrow>
          (case scanLines content of
             (tokens, err) \<Rightarrow>
               let operations = Recover_loop J tokens []
               in if err then Inl ScanError else Inr operations))"

text \<open>Closing a handle that is already closed is an error of \<open>os.File.Close\<close>.\<close>

definition Close_WAL :: "WAL \<Rightarrow> error option \<times> WAL" where
  "Close_WAL w =
     (case file' w of
        None \<Rightarrow> (None, w)
      | Some Closed \<Rightarrow> (Some CloseError, w)
      | Some Open \<Rightarrow> (None, w\<lparr>file' := Some Closed\<rparr>))"

definition Truncate :: "WAL \<Rightarrow> world \<Rightarrow> error option \<times> WAL \<times> world" where
  "Truncate w W =
     (case Close_WAL w of
        (Some err, w1) \<Rightarrow> (Some err, w1, W)
      | (None, w1) \<Rightarrow>
          (case os_OpenFile W (filePath w1) True of
             None \<Rightarrow> (Some OpenError, w1, W)
           | Some W1 \<Rightarrow> (None, w1\<lparr>file' := Some Open, seq := 0\<rparr>, W1)))"


section \<open>The store (db.go)\<close>

record KDB =
  head :: "node option"
  Size :: int
  wal :: "WAL option"

definition newKDB :: KDB where
  "newKDB = \<lparr>head = None, Size = 0, wal = None\<rparr>"

text \<open>\<open>insert\<close> of btree.go, written \<open>insert'\<close>.\<close>

definition insert' :: "KDB \<Rightarrow> int \<Rightarrow> string option \<Rightarrow> KDB" where
  "insert' db key val =
     (case head db of
        None \<Rightarrow> db\<lparr>head := Some (newLeaf key val), Size := Size db + 1\<rparr>
      | Some h \<Rightarrow>
          (case insertKey (Size db) h key val of
             (Size1, h1, result) \<Rightarrow>
               if promoted result then
                 db\<lparr>head := Some (Node (Some h1) (promotedKey result) (promotedVal result)
                                      (newRight result) 0 None None 0 None None 1),
                    Size := Size1\<rparr>
               else db\<lparr>head := Some h1, Size := Size1\<rparr>))"

fun searchKey :: "node option \<Rightarrow> string \<Rightarrow> node option" where
  "searchKey None key = None"
| "searchKey (Some (Node c1 k1 r1 c2 k2 r2 c3 k3 r3 c4 sz)) key =
     (let hash = HashStringToInt key in
      if sz \<ge> 1 \<and> k1 = hash then Some (Node c1 k1 r1 c2 k2 r2 c3 k3 r3 c4 sz)
      else if sz \<ge> 2 \<and> k2 = hash then Some (Node c1 k1 r1 c2 k2 r2 c3 k3 r3 c4 sz)
      else if sz \<ge> 3 \<and> k3 = hash then Some (Node c1 k1 r1 c2 k2 r2 c3 k3 r3 c4 sz)
      else if sz \<ge> 1 \<and> hash < k1 then searchKey c1 key
      else if sz \<ge> 2 \<and> hash < k2 then searchKey c2 key
      else if sz \<ge> 3 \<and> hash < k3 then searchKey c3 key
      else searchKey c4 key)"

definition checkIsDuplicateKey :: "KDB \<Rightarrow> string \<Rightarrow> bool" where
  "checkIsDuplicateKey db key = (searchKey (head db) key \<noteq> None)"

text \<open>
  \<open>Put\<close> returns its two results, the store and the world. \<open>val\<close> is the parameter
  whose address goes into the tree.
\<close>

definition Put ::
  "json \<Rightarrow> KDB \<Rightarrow> world \<Rightarrow> string \<Rightarrow> string \<Rightarrow> (bool \<times> string) \<times> KDB \<times> world" where
  "Put J db W key val =
     (let hashkey = HashStringToInt key in
      if checkIsDuplicateKey db key then ((False, val), db, W)
      else
        (case wal db of
           Some w \<Rightarrow>
             (case Log J w W ''PUT'' key val of
                (Some err, w1, W1) \<Rightarrow> ((False, val), db\<lparr>wal := Some w1\<rparr>, W1)
              | (None, w1, W1) \<Rightarrow>
                  ((True, val), insert' (db\<lparr>wal := Some w1\<rparr>) hashkey (Some val), W1))
         | None \<Rightarrow> ((True, val), insert' db hashkey (Some val), W)))"

text \<open>The loop of \<open>Get\<close>, from the node it has reached.\<close>

fun Get_loop :: "node option \<Rightarrow> int \<Rightarrow> string \<times> bool" where
  "Get_loop None hash = ([], False)"
| "Get_loop (Some (Node c1 k1 r1 c2 k2 r2 c3 k3 r3 c4 sz)) hash =
     (if sz \<ge> 1 \<and> k1 = hash then
        (case r1 of None \<Rightarrow> ([], False) | Some v \<Rightarrow> (v, True))
      else if sz \<ge> 2 \<and> k2 = hash then
        (case r2 of None \<Rightarrow> ([], False) | Some v \<Rightarrow> (v, True))
      else if sz \<ge> 3 \<and> k3 = hash then
        (case r3 of None \<Rightarrow> ([], False) | Some v \<Rightarrow> (v, True))
      else if hash < k1 then Get_loop c1 hash
      else if sz = 1 \<or> hash < k2 then Get_loop c2 hash
      else if sz = 2 \<or> hash < k3 then Get_loop c3 hash
      else Get_loop c4 hash)"

definition Get :: "KDB \<Rightarrow> string \<Rightarrow> string \<times> bool" where
  "Get db key = Get_loop (head db) (HashStringToInt key)"

text \<open>The replay loop of \<open>recoverFromWAL\<close>; it runs with \<open>db.wal\<close> set to nil.\<close>

fun replay :: "json \<Rightarrow> KDB \<Rightarrow> world \<Rightarrow> WALOperation list \<Rightarrow> KDB \<times> world" where
  "replay J db W [] = (db, W)"
| "replay J db W (entry # ops) =
     (if Operation entry = ''PUT'' then
        (case Put J db W (Key entry) (Value entry) of
           (r, db1, W1) \<Rightarrow> replay J db1 W1 ops)
      else replay J db W ops)"

definition recoverFromWAL :: "json \<Rightarrow> KDB \<Rightarrow> world \<Rightarrow> error option \<times> KDB \<times> world" where
  "recoverFromWAL J db W =
     (case wal db of
        None \<Rightarrow> (None, db, W)
      | Some w \<Rightarrow>
          (case Recover J w W of
             Inl err \<Rightarrow> (Some err, db, W)
           | Inr ops \<Rightarrow>
               (case replay J (db\<lparr>wal := None\<rparr>) W ops of
                  (db1, W1) \<Rightarrow> (None, db1\<lparr>wal := Some w\<rparr>, W1))))"

definition newKDBWithWAL :: "json \<Rightarrow> world \<Rightarrow> string \<Rightarrow> (error + KDB) \<times> world" where
  "newKDBWithWAL J W walPath =
     (case NewWAL J W walPath of
        (Inl err, W1) \<Rightarrow> (Inl err, W1)
      | (Inr w, W1) \<Rightarrow>
          (case recoverFromWAL J \<lparr>head = None, Size = 0, wal = Some w\<rparr> W1 of
             (Some err, db, W2) \<Rightarrow> (Inl err, W2)
           | (None, db, W2) \<Rightarrow> (Inr db, W2)))"

definition Close :: "KDB \<Rightarrow> error option \<times> KDB" where
  "Close db =
     (case wal db of
        Some w \<Rightarrow> (case Close_WAL w of (err, w1) \<Rightarrow> (err, db\<lparr>wal := Some w1\<rparr>))
      | None \<Rightarrow> (None, db))"

definition Checkpoint :: "KDB \<Rightarrow> world \<Rightarrow> error option \<times> KDB \<times> world" where
  "Checkpoint db W =
     (case wal db of
        Some w \<Rightarrow> (case Truncate w W of (err, w1, W1) \<Rightarrow> (err, db\<lparr>wal := Some w1\<rparr>, W1))
      | None \<Rightarrow> (None, db, W))"


section \<open>Observations used by the properties\<close>

text \<open>
  The in-order traversal: first child, first key, second child, second key, third
  child, third key, last child; only the \<open>size\<close> occupied key slots count.
\<close>

fun inorder :: "node option \<Rightarrow> int list" where
  "inorder None = []"
| "inorder (Some (Node c1 k1 r1 c2 k2 r2 c3 k3 r3 c4 sz)) =
     inorder c1 @ (if sz \<ge> 1 then [k1] else []) @ inorder c2
       @ (if sz \<ge> 2 then [k2] else []) @ inorder c3
       @ (if sz \<ge> 3 then [k3] else []) @ inorder c4"

fun height :: "node option \<Rightarrow> nat" where
  "height None = 0"
| "height (Some (Node c1 k1 r1 c2 k2 r2 c3 k3 r3 c4 sz)) =
     Suc (max (max (height c1) (height c2)) (max (height c3) (height c4)))"

text \<open>The keys in the occupied slots of one node.\<close>

definition node_keys :: "node \<Rightarrow> int list" where
  "node_keys n =
     (if size' n \<ge> 1 then [key1 n] else []) @ (if size' n \<ge> 2 then [key2 n] else [])
       @ (if size' n \<ge> 3 then [key3 n] else [])"

text \<open>A run of \<open>Put\<close> calls on one store, with the results in call order.\<close>

fun Puts ::
  "json \<Rightarrow> KDB \<Rightarrow> world \<Rightarrow> (string \<times> string) list \<Rightarrow> (bool \<times> string) list \<times> KDB \<times> world" where
  "Puts J db W [] = ([], db, W)"
| "Puts J db W ((key, val) # kvs) =
     (case Put J db W key val of
        (r, db1, W1) \<Rightarrow>
          (case Puts J db1 W1 kvs of (rs, db2, W2) \<Rightarrow> (r # rs, db2, W2)))"

text \<open>
  A run of \<open>Log\<close> calls on one log. Each call comes with the world in which it is made,
  since the file and the failures of the disk may change between two calls; the
  results are the errors in call order and the log after the last call.
\<close>

fun Log_calls ::
  "json \<Rightarrow> WAL \<Rightarrow> (world \<times> string \<times> string \<times> string) list \<Rightarrow> error option list \<times> WAL" where
  "Log_calls J w [] = ([], w)"
| "Log_calls J w ((W, operation, key, val) # calls) =
     (case Log J w W operation key val of
        (err, w1, W1) \<Rightarrow>
          (case Log_calls J w1 calls of (errs, w2) \<Rightarrow> (err # errs, w2)))"


text \<open>
  The structural invariants of the tree: between one and three keys in a node,
  strictly increasing; a node is a leaf (no child at all) or has exactly its first
  \<open>size + 1\<close> child slots filled; the keys of a child lie strictly between the
  separators around it.
\<close>

definition children_ok :: "node \<Rightarrow> bool" where
  "children_ok n =
     (isLeaf n \<or>
      (cp1 n \<noteq> None \<and> cp2 n \<noteq> None
       \<and> (cp3 n \<noteq> None) = (size' n \<ge> 2) \<and> (cp4 n \<noteq> None) = (size' n \<ge> 3)))"

fun btree_inv :: "node option \<Rightarrow> bool" where
  "btree_inv None = True"
| "btree_inv (Some (Node c1 k1 r1 c2 k2 r2 c3 k3 r3 c4 sz)) =
     (1 \<le> sz \<and> sz \<le> 3
      \<and> (sz < 2 \<or> k1 < k2) \<and> (sz < 3 \<or> k2 < k3)
      \<and> children_ok (Node c1 k1 r1 c2 k2 r2 c3 k3 r3 c4 sz)
      \<and> list_all (\<lambda>k. k < k1) (inorder c1)
      \<and> list_all (\<lambda>k. k1 < k) (inorder c2)
      \<and> (sz < 2 \<or> list_all (\<lambda>k. k < k2) (inorder c2))
      \<and> list_all (\<lambda>k. k2 < k) (inorder c3)
      \<and> (sz < 3 \<or> list_all (\<lambda>k. k < k3) (inorder c3))
      \<and> list_all (\<lambda>k. k3 < k) (inorder c4)
      \<and> btree_inv c1 \<and> btree_inv c2 \<and> btree_inv c3 \<and> btree_inv c4)"


section \<open>Insertion into a sorted list and the shape of a node\<close>

text \<open>
  \<open>ins_list\<close> puts a key into an increasing list, after the smaller elements.
  \<open>shape_ok\<close> is the part of the invariants that does not mention the order: one to
  three keys in every node, and a node is a leaf or has its first \<open>size + 1\<close> child
  slots filled and no other. \<open>ssorted\<close> is strictly increasing.
\<close>

fun ins_list :: "int \<Rightarrow> int list \<Rightarrow> int list" where
  "ins_list x [] = [x]"
| "ins_list x (a # xs) = (if x < a then x # a # xs else a # ins_list x xs)"

fun shape_ok :: "node option \<Rightarrow> bool" where
  "shape_ok None = True"
| "shape_ok (Some (Node c1 k1 r1 c2 k2 r2 c3 k3 r3 c4 sz)) =
     ((sz = 1 \<or> sz = 2 \<or> sz = 3)
      \<and> children_ok (Node c1 k1 r1 c2 k2 r2 c3 k3 r3 c4 sz)
      \<and> shape_ok c1 \<and> shape_ok c2 \<and> shape_ok c3 \<and> shape_ok c4)"

abbreviation ssorted :: "int list \<Rightarrow> bool" where
  "ssorted \<equiv> sorted_wrt (<)"

text \<open>
  What one insertion step owes its caller for the key \<open>k\<close> and the subtree with the
  traversal \<open>xs\<close>: the node left in place, with the promoted key and the new right
  sibling when there is a split, holds \<open>ins_list k xs\<close>.
\<close>

definition ins_ok :: "int list \<Rightarrow> int \<Rightarrow> node \<Rightarrow> splitResult \<Rightarrow> bool" where
  "ins_ok xs k n res =
     (shape_ok (Some n) \<and>
      (if promoted res then
         (\<exists>r. newRight res = Some r \<and> shape_ok (Some r)
            \<and> inorder (Some n) @ promotedKey res # inorder (Some r) = ins_list k xs)
       else inorder (Some n) = ins_list k xs))"


section \<open>Sample inputs\<close>

text \<open>
  Three log lines as \<open>json.Marshal\<close> writes them for the records beside them, and the
  part of \<open>encoding/json\<close> on these three records and lines: \<open>json_sample\<close> encodes and
  decodes them and rejects everything else.
\<close>

definition sample_entry :: WALOperation where
  "sample_entry =
     \<lparr>Seq = 1, Operation = ''PUT'', Key = ''a'', Value = ''1'', Timestamp = 0\<rparr>"

definition sample_line :: string where
  \<open>sample_line = ''{"seq":1,"op":"PUT","key":"a","value":"1","timestamp":0}''\<close>

definition negative_entry :: WALOperation where
  "negative_entry =
     \<lparr>Seq = - 5, Operation = ''PUT'', Key = ''a'', Value = ''1'', Timestamp = 0\<rparr>"

definition negative_line :: string where
  \<open>negative_line = ''{"seq":-5,"op":"PUT","key":"a","value":"1","timestamp":0}''\<close>

definition second_entry :: WALOperation where
  "second_entry =
     \<lparr>Seq = 2, Operation = ''PUT'', Key = ''b'', Value = ''2'', Timestamp = 0\<rparr>"

definition second_line :: string where
  \<open>second_line = ''{"seq":2,"op":"PUT","key":"b","value":"2","timestamp":0}''\<close>

definition json_sample :: json where
  "json_sample =
     \<lparr>Marshal = (\<lambda>entry. if entry = sample_entry then Some sample_line
                         else if entry = second_entry then Some second_line
                         else if entry = negative_entry then Some negative_line
                         else None),
      Unmarshal = (\<lambda>line. if line = sample_line then Some sample_entry
                          else if line = second_line then Some second_entry
                          else if line = negative_line then Some negative_entry
                          else None)\<rparr>"

text \<open>A world with no file and no failure, its clock at 0, and the same with one file.\<close>

definition world_empty :: world where
  "world_empty =
     \<lparr>files = (\<lambda>path. None), open_fails = (\<lambda>path. False), write_fails = False,
      sync_fails = False, now = 0\<rparr>"

definition world_with :: "string \<Rightarrow> string \<Rightarrow> world" where
  "world_with path content = world_empty\<lparr>files := (files world_empty)(path \<mapsto> content)\<rparr>"

text \<open>
  The world with the empty file "kdb.wal" in which every write fails, and the one in
  which every sync fails.
\<close>

definition world_write_fails :: world where
  "world_write_fails = (world_with ''kdb.wal'' [])\<lparr>write_fails := True\<rparr>"

definition world_sync_fails :: world where
  "world_sync_fails = (world_with ''kdb.wal'' [])\<lparr>sync_fails := True\<rparr>"

text \<open>The store after \<open>Put\<close> of "a", "b", "c" and "d" on the empty in-memory store.\<close>

definition abcd :: "(string \<times> string) list" where
  "abcd = [(''a'', ''1''), (''b'', ''2''), (''c'', ''3''), (''d'', ''4'')]"

definition db_abcd :: KDB where
  "db_abcd = fst (snd (Puts json_sample newKDB world_empty abcd))"


section \<open>Hashes of the keys used in the examples\<close>

lemma hash_a: "HashStringToInt ''a'' = 177670"
  by (simp add: HashStringToInt_def hash_step_def)

lemma hash_b: "HashStringToInt ''b'' = 177671"
  by (simp add: HashStringToInt_def hash_step_def)

lemma hash_c: "HashStringToInt ''c'' = 177672"
  by (simp add: HashStringToInt_def hash_step_def)

lemma hash_d: "HashStringToInt ''d'' = 177673"
  by (simp add: HashStringToInt_def hash_step_def)

lemma hash_ab: "HashStringToInt ''ab'' = 5863208"
  by (simp add: HashStringToInt_def hash_step_def)

lemma hash_bA: "HashStringToInt ''bA'' = 5863208"
  by (simp add: HashStringToInt_def hash_step_def)


section \<open>Splitting a full leaf\<close>

text \<open>
  Claim C5. Inserting the keys 1, 2, 3, 4 in this order into the empty tree gives a
  tree of height 2: the root holds the single key 2, its first child is the leaf
  with the key 1, its second child the leaf with the keys 3 and 4, and it has no
  other child. The in-order traversal is 1, 2, 3, 4 and \<open>Size\<close> is 4. The values are
  arbitrary.
\<close>

theorem split_1234:
  "(let db = insert' (insert' (insert' (insert' newKDB 1 v1) 2 v2) 3 v3) 4 v4;
        left = Node None 1 v1 None 0 None None 0 None None 1;
        right = Node None 3 v3 None 4 v4 None 0 None None 2
    in head db = Some (Node (Some left) 2 v2 (Some right) 0 None None 0 None None 1)
       \<and> map_option node_keys (head db) = Some [2]
       \<and> node_keys left = [1] \<and> isLeaf left
       \<and> node_keys right = [3, 4] \<and> isLeaf right
       \<and> height (head db) = 2
       \<and> inorder (head db) = [1, 2, 3, 4]
       \<and> Size db = 4)"
  by (simp add: insert'_def newKDB_def newLeaf_def isLeaf_def noSplit_def splitNode_def
      node_keys_def Let_def)


section \<open>Colliding keys\<close>

text \<open>
  Claim C10. The keys "ab" and "bA" are different strings with the same hash. On
  the empty store, whatever the log parameters and the world, \<open>Put\<close> of "ab" with a
  value \<open>v1\<close> returns \<open>(true, v1)\<close>; a following \<open>Put\<close> of "bA" with \<open>v2\<close> returns
  \<open>(false, v2)\<close>, and \<open>Get\<close> of "bA" then returns \<open>(v1, true)\<close>.
\<close>

theorem collision_ab_bA:
  "''ab'' \<noteq> ''bA'' \<and> HashStringToInt ''ab'' = HashStringToInt ''bA'' \<and>
   (case Put J newKDB W ''ab'' v1 of (r1, db1, W1) \<Rightarrow>
      r1 = (True, v1) \<and>
      (case Put J db1 W1 ''bA'' v2 of (r2, db2, W2) \<Rightarrow>
         r2 = (False, v2) \<and> Get db2 ''bA'' = (v1, True)))"
  by (simp add: hash_ab hash_bA Put_def newKDB_def checkIsDuplicateKey_def insert'_def
      newLeaf_def Get_def Let_def)


section \<open>Insertion keeps the keys in order\<close>

text \<open>
  For a tree of good shape whose traversal is strictly increasing, and a key that is
  not in the tree, \<open>insertKey\<close> adds one to \<open>Size\<close> and its result holds the traversal
  with the key inserted. The proof follows the code: a leaf with room, a full leaf,
  and for an inner node the four child slots, each with and without a promotion
  and a split of the node itself.
\<close>

lemma ins_list_left:
  "ssorted (xs @ [a]) \<Longrightarrow> x < a \<Longrightarrow> ins_list x (xs @ a # ys) = ins_list x xs @ a # ys"
  by (induction xs) (auto simp: sorted_wrt_append)

lemma ins_list_right:
  "ssorted (xs @ [a]) \<Longrightarrow> a < x \<Longrightarrow> ins_list x (xs @ a # ys) = xs @ a # ins_list x ys"
  by (induction xs) (auto simp: sorted_wrt_append)

lemma set_ins_list: "set (ins_list x xs) = insert x (set xs)"
  by (induction xs) auto

lemma ssorted_ins_list: "ssorted xs \<Longrightarrow> x \<notin> set xs \<Longrightarrow> ssorted (ins_list x xs)"
  by (induction xs) (auto simp: set_ins_list)

lemma ssorted_snoc: "ssorted (xs @ [a]) = (ssorted xs \<and> (\<forall>x\<in>set xs. x < a))"
  by (auto simp: sorted_wrt_append)

lemma ssorted_mid:
  "ssorted (xs @ a # ys) = (ssorted (xs @ [a]) \<and> ssorted (a # ys))"
  by (fastforce simp: sorted_wrt_append)

lemma leaf_insert:
  assumes "shape_ok (Some n)" "ssorted (inorder (Some n))" "isLeaf n" "size' n < 3"
    "k \<notin> set (inorder (Some n))"
  shows "inorder (Some (insertKeyIntoNode n k v)) = ins_list k (inorder (Some n))
         \<and> shape_ok (Some (insertKeyIntoNode n k v))"
  using assms
  by (cases n) (auto simp: isLeaf_def children_ok_def)

lemma leaf_split:
  assumes "shape_ok (Some n)" "ssorted (inorder (Some n))" "isLeaf n" "\<not> size' n < 3"
    "k \<notin> set (inorder (Some n))" "splitNode n k v None None = (n', res)"
  shows "\<exists>r. promoted res \<and> newRight res = Some r
           \<and> inorder (Some n') @ promotedKey res # inorder (Some r) = ins_list k (inorder (Some n))
           \<and> shape_ok (Some n') \<and> shape_ok (Some r)"
  using assms
  by (cases n) (auto simp: splitNode_def isLeaf_def children_ok_def Let_def)



lemma ins_ok_promotedD:
  assumes "ins_ok xs k n res" "promoted res"
  obtains r where "newRight res = Some r" "shape_ok (Some r)" "shape_ok (Some n)"
    "\<And>zs. inorder (Some n) @ promotedKey res # inorder (Some r) @ zs = ins_list k xs @ zs"
    "promotedKey res \<in> insert k (set xs)"
proof -
  from assms obtain r where r: "newRight res = Some r" "shape_ok (Some r)" "shape_ok (Some n)"
    and e: "inorder (Some n) @ promotedKey res # inorder (Some r) = ins_list k xs"
    by (auto simp: ins_ok_def)
  have "inorder (Some n) @ promotedKey res # inorder (Some r) @ zs = ins_list k xs @ zs" for zs
    using e by (metis append_Cons append_assoc)
  moreover have "promotedKey res \<in> set (ins_list k xs)"
    by (subst e [symmetric]) simp
  ultimately show ?thesis using r that by (simp add: set_ins_list)
qed

lemmas ac_simps = afterChild_def setChild_def ins_ok_def noSplit_def children_ok_def
          isLeaf_def ins_list_left ins_list_right ssorted_snoc sorted_wrt_append

lemma afterChild_0:
  assumes sh: "shape_ok (Some node)" and so: "ssorted (inorder (Some node))"
      and ch: "cp1 node = Some ch" and lt: "k < key1 node"
      and ih: "ins_ok (inorder (Some ch)) k ch' res"
      and r: "afterChild node 0 (S, ch', res) = (S', n', res')"
  shows "S' = S \<and> ins_ok (inorder (Some node)) k n' res'"
proof (cases node)
  case (Node c1 k1 r1 c2 k2 r2 c3 k3 r3 c4 sz)
  from sh Node consider "sz = 1" | "sz = 2" | "sz = 3" by auto
  then show ?thesis
  proof cases
    case 1
    show ?thesis
    proof (cases "promoted res")
      case False
      then show ?thesis using assms Node 1 by (auto simp: ac_simps)
    next
      case True
      from ins_ok_promotedD [OF ih True] obtain rr where rr: "newRight res = Some rr"
        "shape_ok (Some rr)" "shape_ok (Some ch')"
        and e: "\<And>zs. inorder (Some ch') @ promotedKey res # inorder (Some rr) @ zs
                  = ins_list k (inorder (Some ch)) @ zs"
        and pk: "promotedKey res \<in> insert k (set (inorder (Some ch)))"
        by blast
      have pk1: "promotedKey res < k1"
        using pk lt so Node ch 1
        by (auto simp: sorted_wrt_append)
      show ?thesis using assms Node True rr e pk1 1
        by (auto simp: ac_simps)
    qed
  next
    case 2
    show ?thesis
    proof (cases "promoted res")
      case False
      then show ?thesis using assms Node 2 by (auto simp: ac_simps)
    next
      case True
      from ins_ok_promotedD [OF ih True] obtain rr where rr: "newRight res = Some rr"
        "shape_ok (Some rr)" "shape_ok (Some ch')"
        and e: "\<And>zs. inorder (Some ch') @ promotedKey res # inorder (Some rr) @ zs
                  = ins_list k (inorder (Some ch)) @ zs"
        and pk: "promotedKey res \<in> insert k (set (inorder (Some ch)))"
        by blast
      have pk1: "promotedKey res < k1"
        using pk lt so Node ch 2
        by (auto simp: sorted_wrt_append)
      show ?thesis using assms Node True rr e pk1 2
        by (auto simp: ac_simps)
    qed
  next
    case 3
    show ?thesis
    proof (cases "promoted res")
      case False
      then show ?thesis using assms Node 3 by (auto simp: ac_simps)
    next
      case True
      from ins_ok_promotedD [OF ih True] obtain rr where rr: "newRight res = Some rr"
        "shape_ok (Some rr)" "shape_ok (Some ch')"
        and e: "\<And>zs. inorder (Some ch') @ promotedKey res # inorder (Some rr) @ zs
                  = ins_list k (inorder (Some ch)) @ zs"
        and pk: "promotedKey res \<in> insert k (set (inorder (Some ch)))"
        by blast
      have pk1: "promotedKey res < k1"
        using pk lt so Node ch 3
        by (auto simp: sorted_wrt_append)
      show ?thesis using assms Node True rr e pk1 3
        by (auto simp: ac_simps splitNode_def Let_def)
    qed
  qed
qed

lemma afterChild_1:
  assumes sh: "shape_ok (Some node)" and so: "ssorted (inorder (Some node))"
      and ch: "cp2 node = Some ch" and lt: "key1 node < k \<and> (size' node = 1 \<or> k < key2 node)"
      and ih: "ins_ok (inorder (Some ch)) k ch' res"
      and r: "afterChild node 1 (S, ch', res) = (S', n', res')"
  shows "S' = S \<and> ins_ok (inorder (Some node)) k n' res'"
proof (cases node)
  case (Node c1 k1 r1 c2 k2 r2 c3 k3 r3 c4 sz)
  from sh Node consider "sz = 1" | "sz = 2" | "sz = 3" by auto
  then show ?thesis
  proof cases
    case 1
    show ?thesis
    proof (cases "promoted res")
      case False
      then show ?thesis using assms Node 1 by (auto simp: ac_simps)
    next
      case True
      from ins_ok_promotedD [OF ih True] obtain rr where rr: "newRight res = Some rr"
        "shape_ok (Some rr)" "shape_ok (Some ch')"
        and e: "\<And>zs. inorder (Some ch') @ promotedKey res # inorder (Some rr) @ zs
                  = ins_list k (inorder (Some ch)) @ zs"
        and pk: "promotedKey res \<in> insert k (set (inorder (Some ch)))"
        by blast
      have pk1: "k1 < promotedKey res \<and> (sz = 1 \<or> promotedKey res < k2)"
        using pk lt so Node ch 1
        by (auto simp: sorted_wrt_append)
      show ?thesis using assms Node True rr e pk1 1
        by (auto simp: ac_simps)
    qed
  next
    case 2
    show ?thesis
    proof (cases "promoted res")
      case False
      then show ?thesis using assms Node 2 by (auto simp: ac_simps)
    next
      case True
      from ins_ok_promotedD [OF ih True] obtain rr where rr: "newRight res = Some rr"
        "shape_ok (Some rr)" "shape_ok (Some ch')"
        and e: "\<And>zs. inorder (Some ch') @ promotedKey res # inorder (Some rr) @ zs
                  = ins_list k (inorder (Some ch)) @ zs"
        and pk: "promotedKey res \<in> insert k (set (inorder (Some ch)))"
        by blast
      have pk1: "k1 < promotedKey res \<and> (sz = 1 \<or> promotedKey res < k2)"
        using pk lt so Node ch 2
        by (auto simp: sorted_wrt_append)
      show ?thesis using assms Node True rr e pk1 2
        by (auto simp: ac_simps)
    qed
  next
    case 3
    show ?thesis
    proof (cases "promoted res")
      case False
      then show ?thesis using assms Node 3 by (auto simp: ac_simps)
    next
      case True
      from ins_ok_promotedD [OF ih True] obtain rr where rr: "newRight res = Some rr"
        "shape_ok (Some rr)" "shape_ok (Some ch')"
        and e: "\<And>zs. inorder (Some ch') @ promotedKey res # inorder (Some rr) @ zs
                  = ins_list k (inorder (Some ch)) @ zs"
        and pk: "promotedKey res \<in> insert k (set (inorder (Some ch)))"
        by blast
      have pk1: "k1 < promotedKey res \<and> (sz = 1 \<or> promotedKey res < k2)"
        using pk lt so Node ch 3
        by (auto simp: sorted_wrt_append)
      show ?thesis using assms Node True rr e pk1 3
        by (auto simp: ac_simps splitNode_def Let_def)
    qed
  qed
qed

lemma afterChild_2:
  assumes sh: "shape_ok (Some node)" and so: "ssorted (inorder (Some node))"
      and ch: "cp3 node = Some ch" and lt: "key2 node < k \<and> (size' node = 2 \<or> k < key3 node)"
      and ih: "ins_ok (inorder (Some ch)) k ch' res"
      and r: "afterChild node 2 (S, ch', res) = (S', n', res')"
  shows "S' = S \<and> ins_ok (inorder (Some node)) k n' res'"
proof (cases node)
  case (Node c1 k1 r1 c2 k2 r2 c3 k3 r3 c4 sz)
  from sh Node consider "sz = 1" | "sz = 2" | "sz = 3" by auto
  then show ?thesis
  proof cases
    case 1
    then show ?thesis using sh ch lt Node by (auto simp: children_ok_def isLeaf_def)
  next
    case 2
    show ?thesis
    proof (cases "promoted res")
      case False
      then show ?thesis using assms Node 2 by (auto simp: ac_simps)
    next
      case True
      from ins_ok_promotedD [OF ih True] obtain rr where rr: "newRight res = Some rr"
        "shape_ok (Some rr)" "shape_ok (Some ch')"
        and e: "\<And>zs. inorder (Some ch') @ promotedKey res # inorder (Some rr) @ zs
                  = ins_list k (inorder (Some ch)) @ zs"
        and pk: "promotedKey res \<in> insert k (set (inorder (Some ch)))"
        by blast
      have pk1: "k2 < promotedKey res \<and> (sz = 2 \<or> promotedKey res < k3)"
        using pk lt so Node ch 2
        by (auto simp: sorted_wrt_append)
      show ?thesis using assms Node True rr e pk1 2
        by (auto simp: ac_simps)
    qed
  next
    case 3
    show ?thesis
    proof (cases "promoted res")
      case False
      then show ?thesis using assms Node 3 by (auto simp: ac_simps)
    next
      case True
      from ins_ok_promotedD [OF ih True] obtain rr where rr: "newRight res = Some rr"
        "shape_ok (Some rr)" "shape_ok (Some ch')"
        and e: "\<And>zs. inorder (Some ch') @ promotedKey res # inorder (Some rr) @ zs
                  = ins_list k (inorder (Some ch)) @ zs"
        and pk: "promotedKey res \<in> insert k (set (inorder (Some ch)))"
        by blast
      have pk1: "k2 < promotedKey res \<and> (sz = 2 \<or> promotedKey res < k3)"
        using pk lt so Node ch 3
        by (auto simp: sorted_wrt_append)
      show ?thesis using assms Node True rr e pk1 3
        by (auto simp: ac_simps splitNode_def Let_def)
    qed
  qed
qed

lemma afterChild_3:
  assumes sh: "shape_ok (Some node)" and so: "ssorted (inorder (Some node))"
      and ch: "cp4 node = Some ch" and lt: "key3 node < k"
      and ih: "ins_ok (inorder (Some ch)) k ch' res"
      and r: "afterChild node 3 (S, ch', res) = (S', n', res')"
  shows "S' = S \<and> ins_ok (inorder (Some node)) k n' res'"
proof (cases node)
  case (Node c1 k1 r1 c2 k2 r2 c3 k3 r3 c4 sz)
  from sh Node consider "sz = 1" | "sz = 2" | "sz = 3" by auto
  then show ?thesis
  proof cases
    case 1
    then show ?thesis using sh ch lt Node by (auto simp: children_ok_def isLeaf_def)
  next
    case 2
    then show ?thesis using sh ch lt Node by (auto simp: children_ok_def isLeaf_def)
  next
    case 3
    show ?thesis
    proof (cases "promoted res")
      case False
      then show ?thesis using assms Node 3 by (auto simp: ac_simps)
    next
      case True
      from ins_ok_promotedD [OF ih True] obtain rr where rr: "newRight res = Some rr"
        "shape_ok (Some rr)" "shape_ok (Some ch')"
        and e: "\<And>zs. inorder (Some ch') @ promotedKey res # inorder (Some rr) @ zs
                  = ins_list k (inorder (Some ch)) @ zs"
        and pk: "promotedKey res \<in> insert k (set (inorder (Some ch)))"
        by blast
      have pk1: "k3 < promotedKey res"
        using pk lt so Node ch 3
        by (auto simp: sorted_wrt_append)
      show ?thesis using assms Node True rr e pk1 3
        by (auto simp: ac_simps splitNode_def Let_def)
    qed
  qed
qed

lemma ins_ok_leaf:
  assumes "shape_ok (Some n)" "ssorted (inorder (Some n))" "isLeaf n"
    "k \<notin> set (inorder (Some n))" "insertKey S n k v = (S', n', res)"
  shows "S' = S + 1 \<and> ins_ok (inorder (Some n)) k n' res"
proof (cases "size' n < 3")
  case True
  with assms leaf_insert [OF assms(1,2,3) True assms(4), of v] show ?thesis
    by (cases n) (auto simp: ins_ok_def noSplit_def Let_def)
next
  case False
  obtain n2 res2 where s: "splitNode n k v None None = (n2, res2)" by fastforce
  from leaf_split [OF assms(1,2,3) False assms(4) s] assms(3,5) False s show ?thesis
    by (cases n) (auto simp: ins_ok_def Let_def)
qed

lemma insertKey_ok:
  "shape_ok (Some n) \<Longrightarrow> ssorted (inorder (Some n)) \<Longrightarrow> k \<notin> set (inorder (Some n))
   \<Longrightarrow> insertKey S n k v = (S', n', res)
   \<Longrightarrow> S' = S + 1 \<and> ins_ok (inorder (Some n)) k n' res"
proof (induction S n k v arbitrary: S' n' res rule: insertKey.induct)
  case (1 Size c1 k1 r1 c2 k2 r2 c3 k3 r3 c4 sz key val)
  let ?node = "Node c1 k1 r1 c2 k2 r2 c3 k3 r3 c4 sz"
  note sh = "1.prems"(1) and so = "1.prems"(2) and nk = "1.prems"(3) and eq = "1.prems"(4)
  show ?case
  proof (cases "isLeaf ?node")
    case True
    then show ?thesis using ins_ok_leaf [OF sh so True nk eq] by simp
  next
    case leaf: False
    from sh have szs: "sz = 1 \<or> sz = 2 \<or> sz = 3" by simp
    from sh leaf have kids: "c1 \<noteq> None" "c2 \<noteq> None" "(c3 \<noteq> None) = (sz \<ge> 2)" "(c4 \<noteq> None) = (sz \<ge> 3)"
      by (auto simp: children_ok_def)
    have ne: "key \<noteq> k1" "sz \<ge> 2 \<Longrightarrow> key \<noteq> k2" "sz \<ge> 3 \<Longrightarrow> key \<noteq> k3"
      using nk szs by auto
    show ?thesis
    proof (cases "key < k1")
      case True
      from kids obtain ch where ch: "c1 = Some ch" by auto
      obtain S1 ch1 res1 where rec: "insertKey Size ch key val = (S1, ch1, res1)"
        by (metis prod_cases3)
      have "S1 = Size + 1 \<and> ins_ok (inorder (Some ch)) key ch1 res1"
        using "1.IH"(1) [OF refl leaf True ch _ _ _ rec] sh so nk ch
        by (auto simp: sorted_wrt_append)
      moreover have "afterChild ?node 0 (S1, ch1, res1) = (S', n', res)"
        using eq leaf True ch rec by (simp add: Let_def)
      ultimately show ?thesis
        using afterChild_0 [OF sh so, of ch key ch1 res1 S1 S' n' res] ch True by simp
    next
      case nlt1: False
      with ne have gt1: "k1 < key" by simp
      show ?thesis
      proof (cases "sz = 1 \<or> key < k2")
        case True
        from kids obtain ch where ch: "c2 = Some ch" by auto
        obtain S1 ch1 res1 where rec: "insertKey Size ch key val = (S1, ch1, res1)"
          by (metis prod_cases3)
        have "S1 = Size + 1 \<and> ins_ok (inorder (Some ch)) key ch1 res1"
          using "1.IH"(2) [OF refl leaf nlt1 True ch _ _ _ rec] sh so nk ch
          by (auto simp: sorted_wrt_append)
        moreover have "afterChild ?node 1 (S1, ch1, res1) = (S', n', res)"
          using eq leaf nlt1 True ch rec by (simp add: Let_def)
        ultimately show ?thesis
          using afterChild_1 [OF sh so, of ch key ch1 res1 S1 S' n' res] ch True gt1 by simp
      next
        case n2: False
        with ne szs have gt2: "k2 < key" "sz \<ge> 2" by auto
        show ?thesis
        proof (cases "sz = 2 \<or> key < k3")
          case True
          from kids gt2 obtain ch where ch: "c3 = Some ch" by auto
          obtain S1 ch1 res1 where rec: "insertKey Size ch key val = (S1, ch1, res1)"
            by (metis prod_cases3)
          have "S1 = Size + 1 \<and> ins_ok (inorder (Some ch)) key ch1 res1"
            using "1.IH"(3) [OF refl leaf nlt1 n2 True ch _ _ _ rec] sh so nk ch
            by (auto simp: sorted_wrt_append)
          moreover have "afterChild ?node 2 (S1, ch1, res1) = (S', n', res)"
            using eq leaf nlt1 n2 True ch rec by (simp add: Let_def)
          ultimately show ?thesis
            using afterChild_2 [OF sh so, of ch key ch1 res1 S1 S' n' res] ch True gt2 by simp
        next
          case n3: False
          with ne szs gt2 have gt3: "k3 < key" "sz = 3" by auto
          from kids gt3 obtain ch where ch: "c4 = Some ch" by auto
          obtain S1 ch1 res1 where rec: "insertKey Size ch key val = (S1, ch1, res1)"
            by (metis prod_cases3)
          have "S1 = Size + 1 \<and> ins_ok (inorder (Some ch)) key ch1 res1"
            using "1.IH"(4) [OF refl leaf nlt1 n2 n3 ch _ _ _ rec] sh so nk ch
            by (auto simp: sorted_wrt_append)
          moreover have "afterChild ?node 3 (S1, ch1, res1) = (S', n', res)"
            using eq leaf nlt1 n2 n3 ch rec by (simp add: Let_def)
          ultimately show ?thesis
            using afterChild_3 [OF sh so, of ch key ch1 res1 S1 S' n' res] ch gt3 by simp
        qed
      qed
    qed
  qed
qed

text \<open>
  Good shape and a strictly increasing traversal give the structural invariants;
  \<open>insert\<close> keeps both; \<open>searchKey\<close> only ever returns a node for a hash that is in the
  tree, so a key whose hash is in no node is never reported as a duplicate.
\<close>

lemma shape_sorted_btree_inv:
  "shape_ok t \<Longrightarrow> ssorted (inorder t) \<Longrightarrow> btree_inv t"
proof (induction t rule: shape_ok.induct)
  case 1
  then show ?case by simp
next
  case (2 c1 k1 r1 c2 k2 r2 c3 k3 r3 c4 sz)
  from "2.prems"(1) consider "sz = 1" | "sz = 2" | "sz = 3" by auto
  then show ?case
  proof cases
    case 1
    then show ?thesis using "2.IH" "2.prems"
      by (auto simp: list_all_iff sorted_wrt_append children_ok_def isLeaf_def)
  next
    case 2
    then show ?thesis using "2.IH" "2.prems"
      by (auto simp: list_all_iff sorted_wrt_append children_ok_def isLeaf_def)
  next
    case 3
    then show ?thesis using "2.IH" "2.prems"
      by (auto simp: list_all_iff sorted_wrt_append children_ok_def isLeaf_def)
  qed
qed

lemma insert'_ok:
  assumes "shape_ok (head db)" "ssorted (inorder (head db))" "k \<notin> set (inorder (head db))"
  shows "inorder (head (insert' db k v)) = ins_list k (inorder (head db))
         \<and> shape_ok (head (insert' db k v))
         \<and> Size (insert' db k v) = Size db + 1
         \<and> wal (insert' db k v) = wal db"
proof (cases "head db")
  case None
  then show ?thesis
    by (simp add: insert'_def newLeaf_def children_ok_def isLeaf_def)
next
  case (Some h)
  obtain S1 h1 res where ik: "insertKey (Size db) h k v = (S1, h1, res)"
    by (metis prod_cases3)
  from assms Some have pre: "shape_ok (Some h)" "ssorted (inorder (Some h))"
    "k \<notin> set (inorder (Some h))"
    by simp_all
  from insertKey_ok [OF pre ik] have S1: "S1 = Size db + 1"
    and ok: "ins_ok (inorder (Some h)) k h1 res" by simp_all
  show ?thesis
  proof (cases "promoted res")
    case True
    from ins_ok_promotedD [OF ok True] obtain r where r: "newRight res = Some r"
      "shape_ok (Some r)" "shape_ok (Some h1)"
      and e: "\<And>zs. inorder (Some h1) @ promotedKey res # inorder (Some r) @ zs
                = ins_list k (inorder (Some h)) @ zs"
      by blast
    have hd: "head (insert' db k v) =
        Some (Node (Some h1) (promotedKey res) (promotedVal res) (Some r) 0 None None 0 None None 1)"
      "Size (insert' db k v) = S1" "wal (insert' db k v) = wal db"
      using Some ik True r by (simp_all add: insert'_def)
    have "inorder (head (insert' db k v)) = ins_list k (inorder (Some h))"
      using e [of "[]"] by (simp add: hd)
    moreover have "shape_ok (head (insert' db k v))"
      using r by (simp add: hd children_ok_def isLeaf_def)
    ultimately show ?thesis using Some S1 hd by simp
  next
    case False
    have hd: "head (insert' db k v) = Some h1"
      "Size (insert' db k v) = S1" "wal (insert' db k v) = wal db"
      using Some ik False by (simp_all add: insert'_def)
    show ?thesis using ok False Some S1 by (simp add: hd ins_ok_def)
  qed
qed

lemma searchKey_sound:
  "searchKey t key = Some n \<Longrightarrow> HashStringToInt key \<in> set (inorder t)"
  by (induction t key rule: searchKey.induct) (auto simp: Let_def split: if_splits)

lemma not_duplicate:
  "HashStringToInt key \<notin> set (inorder (head db)) \<Longrightarrow> \<not> checkIsDuplicateKey db key"
  by (cases "searchKey (head db) key")
     (auto simp: checkIsDuplicateKey_def dest: searchKey_sound)

text \<open>
  A committed \<open>Put\<close> is the insertion of the hash. So a run of \<open>Put\<close> calls that are all
  committed, with pairwise distinct hashes that are not yet in the tree, leaves a
  tree with the invariants whose traversal is strictly increasing and holds exactly
  the old hashes and the new ones; on a store without a log every such call is
  committed.
\<close>

lemma Put_committed:
  assumes "Put J db W key val = ((True, v'), db1, W1)"
  shows "\<exists>w'. db1 = insert' (db\<lparr>wal := w'\<rparr>) (HashStringToInt key) (Some val)"
proof (cases "wal db")
  case None
  then have eq: "db\<lparr>wal := None\<rparr> = db" by simp
  have "db1 = insert' (db\<lparr>wal := None\<rparr>) (HashStringToInt key) (Some val)"
    using assms None by (auto simp: Put_def Let_def eq split: if_splits)
  then show ?thesis by blast
next
  case (Some w)
  obtain e w1 W2 where l: "Log J w W ''PUT'' key val = (e, w1, W2)" by (metis prod_cases3)
  with assms Some have "db1 = insert' (db\<lparr>wal := Some w1\<rparr>) (HashStringToInt key) (Some val)"
    by (cases e) (auto simp: Put_def Let_def split: if_splits)
  then show ?thesis by blast
qed

lemma Put_committed_fresh:
  assumes "shape_ok (head db)" "ssorted (inorder (head db))"
    and "HashStringToInt key \<notin> set (inorder (head db))"
    and "Put J db W key val = ((True, v'), db1, W1)"
  shows "inorder (head db1) = ins_list (HashStringToInt key) (inorder (head db))
         \<and> shape_ok (head db1) \<and> Size db1 = Size db + 1"
proof -
  from Put_committed [OF assms(4)] obtain w' where
    d: "db1 = insert' (db\<lparr>wal := w'\<rparr>) (HashStringToInt key) (Some val)" by blast
  show ?thesis
    using insert'_ok [of "db\<lparr>wal := w'\<rparr>" "HashStringToInt key" "Some val"] assms(1-3)
    by (simp add: d)
qed

lemma Puts_distinct_hashes:
  assumes "shape_ok (head db)" "ssorted (inorder (head db))"
    and "distinct (map (\<lambda>kv. HashStringToInt (fst kv)) kvs)"
    and "list_all (\<lambda>kv. HashStringToInt (fst kv) \<notin> set (inorder (head db))) kvs"
    and "Puts J db W kvs = (rs, db1, W1)"
    and "list_all fst rs"
  shows "ssorted (inorder (head db1))
         \<and> set (inorder (head db1))
             = set (inorder (head db)) \<union> set (map (\<lambda>kv. HashStringToInt (fst kv)) kvs)
         \<and> btree_inv (head db1)
         \<and> Size db1 = Size db + int (length kvs)"
  using assms
proof (induction kvs arbitrary: db W rs db1 W1)
  case Nil
  then show ?case by (simp add: shape_sorted_btree_inv)
next
  case (Cons kv kvs)
  obtain key val where kv: "kv = (key, val)" by (cases kv)
  obtain r db2 W2 where p: "Put J db W key val = (r, db2, W2)" by (metis prod_cases3)
  obtain rs2 db3 W3 where ps: "Puts J db2 W2 kvs = (rs2, db3, W3)" by (metis prod_cases3)
  from Cons.prems(5) kv p ps have eqs: "rs = r # rs2" "db1 = db3" by simp_all
  with Cons.prems(6) have rt: "fst r" "list_all fst rs2" by simp_all
  then obtain v' where r: "r = (True, v')" by (cases r) auto
  from Cons.prems(4) kv have fresh: "HashStringToInt key \<notin> set (inorder (head db))" by simp
  from Put_committed_fresh [OF Cons.prems(1,2) fresh p [unfolded r]]
  have step: "inorder (head db2) = ins_list (HashStringToInt key) (inorder (head db))"
    "shape_ok (head db2)" "Size db2 = Size db + 1" by simp_all
  have so2: "ssorted (inorder (head db2))"
    using Cons.prems(2) fresh by (simp add: step ssorted_ins_list)
  have d2: "distinct (map (\<lambda>kv. HashStringToInt (fst kv)) kvs)"
    using Cons.prems(3) by simp
  have f2: "list_all (\<lambda>kv. HashStringToInt (fst kv) \<notin> set (inorder (head db2))) kvs"
    using Cons.prems(3,4) kv by (fastforce simp: step set_ins_list list_all_iff image_iff)
  from Cons.IH [OF step(2) so2 d2 f2 ps rt(2)] show ?case
    using eqs kv step by (auto simp: set_ins_list)
qed

lemma Puts_in_memory_committed:
  assumes "wal db = None"
    and "distinct (map (\<lambda>kv. HashStringToInt (fst kv)) kvs)"
    and "list_all (\<lambda>kv. HashStringToInt (fst kv) \<notin> set (inorder (head db))) kvs"
    and "shape_ok (head db)" "ssorted (inorder (head db))"
  shows "list_all fst (fst (Puts J db W kvs))"
  using assms
proof (induction kvs arbitrary: db)
  case Nil
  then show ?case by simp
next
  case (Cons kv kvs)
  obtain key val where kv: "kv = (key, val)" by (cases kv)
  from Cons.prems(3) kv have fresh: "HashStringToInt key \<notin> set (inorder (head db))" by simp
  let ?db2 = "insert' db (HashStringToInt key) (Some val)"
  have p: "Put J db W key val = ((True, val), ?db2, W)"
    using Cons.prems(1) not_duplicate [OF fresh] by (simp add: Put_def Let_def)
  from insert'_ok [OF Cons.prems(4,5) fresh, of "Some val"]
  have step: "inorder (head ?db2) = ins_list (HashStringToInt key) (inorder (head db))"
    "shape_ok (head ?db2)" "wal ?db2 = None"
    using Cons.prems(1) by simp_all
  have so2: "ssorted (inorder (head ?db2))"
    using Cons.prems(5) fresh by (simp add: step ssorted_ins_list)
  have d2: "distinct (map (\<lambda>kv. HashStringToInt (fst kv)) kvs)"
    using Cons.prems(2) by simp
  have f2: "list_all (\<lambda>kv. HashStringToInt (fst kv) \<notin> set (inorder (head ?db2))) kvs"
    using Cons.prems(2,3) kv by (fastforce simp: step set_ins_list list_all_iff image_iff)
  from Cons.IH [OF step(3) d2 f2 step(2) so2] show ?case
    using kv p by (auto split: prod.splits)
qed


section \<open>The child chosen by \<open>searchKey\<close>\<close>

text \<open>
  The store after the four \<open>Put\<close> calls: the third insertion fills the root leaf, the
  fourth splits it.
\<close>

lemma db_abcd_eq:
  "db_abcd =
     \<lparr>head = Some (Node (Some (Node None 177670 (Some ''1'') None 0 None None 0 None None 1))
                        177671 (Some ''2'')
                        (Some (Node None 177672 (Some ''3'') None 177673 (Some ''4'')
                                    None 0 None None 2))
                        0 None None 0 None None 1),
      Size = 4, wal = None\<rparr>"
  by (simp add: db_abcd_def abcd_def Put_def newKDB_def checkIsDuplicateKey_def insert'_def
      newLeaf_def isLeaf_def noSplit_def splitNode_def Let_def hash_a hash_b hash_c hash_d)

text \<open>When \<open>searchKey\<close> does report the key, \<open>Put\<close> rejects it and changes nothing.\<close>

lemma Put_reported_duplicate:
  "checkIsDuplicateKey db key \<Longrightarrow> Put J db W key val = ((False, val), db, W)"
  by (simp add: Put_def)

text \<open>
  Claim C2 says that on a tree with the structural invariants \<open>searchKey\<close> finds every
  stored key and returns nil for every other key. The second half holds
  (\<open>searchKey_sound\<close>). The first does not: in a node with fewer than three keys a key
  above the last separator is looked for under \<open>cp4\<close>, which is empty, and not under
  the last child. The tree of \<open>db_abcd\<close> has the invariants and stores the hash of "c"
  in the second child of its one-key root; \<open>searchKey\<close> returns nil for "c", while
  \<open>Get\<close>, which picks the child as \<open>insertKey\<close> does, finds its value.
\<close>

theorem searchKey_misses_stored_key:
  "btree_inv (head db_abcd)
   \<and> HashStringToInt ''c'' \<in> set (inorder (head db_abcd))
   \<and> searchKey (head db_abcd) ''c'' = None
   \<and> Get db_abcd ''c'' = (''3'', True)"
  by (simp add: db_abcd_eq hash_c children_ok_def isLeaf_def Get_def)

text \<open>
  Claim C1 says that \<open>Put\<close> of a key whose hash is already in the tree returns
  \<open>(false, value)\<close> and changes nothing. On \<open>db_abcd\<close>, reached by four \<open>Put\<close> calls
  from the empty store, the hash of "c" is in the tree, and yet \<open>Put\<close> of "c" with
  the value "x" returns \<open>(true, "x")\<close>, \<open>Size\<close> goes from 4 to 5 and the hash stands
  twice in the tree.
\<close>

theorem Put_accepts_stored_key:
  "HashStringToInt ''c'' \<in> set (inorder (head db_abcd)) \<and> Size db_abcd = 4 \<and>
   (case Put J db_abcd W ''c'' ''x'' of
      (r, db1, W1) \<Rightarrow>
        r = (True, ''x'') \<and> Size db1 = 5
        \<and> inorder (head db1) = [177670, 177671, 177672, 177672, 177673])"
  by (simp add: db_abcd_eq hash_c Put_def checkIsDuplicateKey_def insert'_def isLeaf_def
      afterChild_def setChild_def noSplit_def Let_def)

text \<open>
  Claim C3 says that after successful \<open>Put\<close> calls with pairwise distinct keys the
  in-order traversal is strictly increasing. The five keys below are pairwise
  distinct and every \<open>Put\<close> returns true, on the empty store with any log parameters
  and world; "ab" and "bA" have the same hash, the second one is not found by
  \<open>searchKey\<close> under the one-key root, and the traversal holds that hash twice.
  With pairwise distinct hashes the traversal is strictly increasing
  (\<open>Puts_distinct_hashes\<close>): the order is lost only through the missed duplicate.
\<close>

theorem Puts_distinct_keys_not_increasing:
  "distinct [''a'', ''b'', ''c'', ''ab'', ''bA''] \<and>
   (case Puts J newKDB W
           [(''a'', ''1''), (''b'', ''2''), (''c'', ''3''), (''ab'', ''4''), (''bA'', ''5'')] of
      (rs, db, W1) \<Rightarrow>
        map fst rs = [True, True, True, True, True]
        \<and> inorder (head db) = [177670, 177671, 177672, 5863208, 5863208]
        \<and> \<not> sorted_wrt (<) (inorder (head db)))"
  by (simp add: Put_def newKDB_def checkIsDuplicateKey_def insert'_def newLeaf_def isLeaf_def
      noSplit_def splitNode_def Let_def hash_a hash_b hash_c hash_ab hash_bA afterChild_def
      setChild_def)


section \<open>Scanning and recovery\<close>

lemma Recover_loop_map_filter:
  "Recover_loop J ls acc = acc @ List.map_filter (Unmarshal J) ls"
  by (induction ls arbitrary: acc) (auto simp: List.map_filter_simps split: option.splits)

lemma scanLines_unfold:
  assumes "xs \<noteq> []"
  shows "scanLines xs =
     (let line = takeWhile (\<lambda>x. x \<noteq> newline) xs;
          rest = dropWhile (\<lambda>x. x \<noteq> newline) xs
      in if MaxScanTokenSize \<le> length line then ([], True)
         else (case rest of
                 [] \<Rightarrow> ([dropCR line], False)
               | nl # rest' \<Rightarrow>
                   (case scanLines rest' of (ts, err) \<Rightarrow> (dropCR line # ts, err))))"
  using assms by (cases xs) simp_all

lemma scanLines_line:
  assumes "newline \<notin> set l" and "length l < MaxScanTokenSize"
  shows "scanLines (l @ newline # rest) =
           (dropCR l # fst (scanLines rest), snd (scanLines rest))"
proof -
  have tw: "takeWhile (\<lambda>x. x \<noteq> newline) (l @ newline # rest) = l"
    using assms(1) by (induction l) auto
  have dw: "dropWhile (\<lambda>x. x \<noteq> newline) (l @ newline # rest) = newline # rest"
    using assms(1) by (induction l) auto
  have ne: "l @ newline # rest \<noteq> []" by simp
  show ?thesis
    using assms(2) by (simp add: scanLines_unfold [OF ne] tw dw split: prod.splits)
qed

lemma scanLines_too_long:
  assumes "newline \<notin> set l" and "MaxScanTokenSize \<le> length l"
  shows "scanLines l = ([], True)"
proof -
  have tw: "takeWhile (\<lambda>x. x \<noteq> newline) l = l"
    using assms(1) by (induction l) auto
  have ne: "l \<noteq> []" using assms(2) by (auto simp: MaxScanTokenSize_def)
  show ?thesis using assms(2) by (simp add: scanLines_unfold [OF ne] tw)
qed

lemma scanLines_single:
  assumes "newline \<notin> set l" and "length l < MaxScanTokenSize"
  shows "scanLines (l @ [newline]) = ([dropCR l], False)"
  using scanLines_line [OF assms, of "[]"] by simp

text \<open>
  Claim C7, as amended. \<open>Recover\<close> returns the empty sequence and no error when the
  file does not exist. On an existing file that can be opened it returns the records
  decoded from the lines the scanner yields, in file order, every line that does not
  decode being skipped, provided the scanner ends without error; when the scanner
  stops with an error (a line of \<open>MaxScanTokenSize\<close> bytes or more), \<open>Recover\<close> returns
  that error and no record.
\<close>

theorem Recover_parseable_lines:
  "Recover J w W =
     (case os_Open W (filePath w) of
        NotExist \<Rightarrow> Inr []
      | OpenFailed \<Rightarrow> Inl OpenError
      | Opened content \<Rightarrow>
          if snd (scanLines content) then Inl ScanError
          else Inr (List.map_filter (Unmarshal J) (fst (scanLines content))))"
  by (simp add: Recover_def Recover_loop_map_filter split: open_result.splits prod.splits)

text \<open>
  Claim C7 as stated fails: a file whose only line is 65536 bytes long, a line
  that does not decode, makes \<open>Recover\<close> return an error instead of skipping it.
\<close>

theorem Recover_long_line_error:
  "Unmarshal json_sample (replicate 65536 (CHR ''x'')) = None
   \<and> Recover json_sample \<lparr>file' = Some Open, seq = 0, filePath = ''kdb.wal''\<rparr>
        (world_with ''kdb.wal'' (replicate 65536 (CHR ''x''))) = Inl ScanError"
proof -
  have "scanLines (replicate 65536 (CHR ''x'')) = ([], True)"
    by (rule scanLines_too_long) (simp_all add: newline_def MaxScanTokenSize_def)
  moreover have "Unmarshal json_sample (replicate 65536 (CHR ''x'')) = None"
  proof -
    have "length (replicate 65536 (CHR ''x'')) \<noteq> length l"
      if "l = sample_line \<or> l = second_line \<or> l = negative_line" for l
      using that by (auto simp: sample_line_def second_line_def negative_line_def)
    then have "replicate 65536 (CHR ''x'') \<noteq> sample_line"
      "replicate 65536 (CHR ''x'') \<noteq> second_line"
      "replicate 65536 (CHR ''x'') \<noteq> negative_line"
      by blast+
    then show ?thesis by (simp add: json_sample_def)
  qed
  ultimately show ?thesis
    by (simp add: Recover_def os_Open_def world_with_def world_empty_def)
qed


section \<open>The sample lines and worlds\<close>

lemma sample_line_ok:
  "newline \<notin> set sample_line \<and> length sample_line < MaxScanTokenSize \<and> dropCR sample_line = sample_line"
  by (simp add: sample_line_def newline_def MaxScanTokenSize_def dropCR_def)

lemma negative_line_ok:
  "newline \<notin> set negative_line \<and> length negative_line < MaxScanTokenSize \<and> dropCR negative_line = negative_line"
  by (simp add: negative_line_def newline_def MaxScanTokenSize_def dropCR_def)

lemma sample_lines_distinct:
  "sample_line \<noteq> second_line \<and> sample_line \<noteq> negative_line \<and> second_line \<noteq> negative_line
   \<and> second_line \<noteq> sample_line \<and> negative_line \<noteq> sample_line \<and> negative_line \<noteq> second_line"
  by (simp add: sample_line_def second_line_def negative_line_def)

lemma sample_entries_distinct:
  "sample_entry \<noteq> second_entry \<and> sample_entry \<noteq> negative_entry \<and> second_entry \<noteq> negative_entry
   \<and> second_entry \<noteq> sample_entry \<and> negative_entry \<noteq> sample_entry \<and> negative_entry \<noteq> second_entry"
  by (simp add: sample_entry_def second_entry_def negative_entry_def)

lemma Marshal_sample:
  "Marshal json_sample \<lparr>Seq = 1, Operation = ''PUT'', Key = ''a'', Value = ''1'', Timestamp = 0\<rparr>
     = Some sample_line"
  "Marshal json_sample \<lparr>Seq = 2, Operation = ''PUT'', Key = ''b'', Value = ''2'', Timestamp = 0\<rparr>
     = Some second_line"
  by (simp_all add: json_sample_def sample_entry_def second_entry_def)

lemma Unmarshal_sample:
  "Unmarshal json_sample sample_line = Some sample_entry"
  "Unmarshal json_sample second_line = Some second_entry"
  "Unmarshal json_sample negative_line = Some negative_entry"
  by (simp_all add: json_sample_def sample_lines_distinct)

lemma world_with_simps:
  "files (world_with path content) = (files world_empty)(path \<mapsto> content)"
  "open_fails (world_with path content) p = False"
  "write_fails (world_with path content) = False"
  "sync_fails (world_with path content) = False"
  "now (world_with path content) = 0"
  "files world_empty p = None"
  "append_file (world_with path content) path data = world_with path (content @ data)"
  "(world_with path content)\<lparr>files := (files world_empty)(path \<mapsto> c2)\<rparr>
     = world_with path c2"
  by (simp_all add: world_with_def world_empty_def append_file_def)

lemma scan_sample: "scanLines (sample_line @ [newline]) = ([sample_line], False)"
  using scanLines_single [of sample_line] sample_line_ok by simp

lemma scan_negative: "scanLines (negative_line @ [newline]) = ([negative_line], False)"
  using scanLines_single [of negative_line] negative_line_ok by simp

lemma NewWAL_sample:
  "NewWAL json_sample (world_with ''kdb.wal'' (sample_line @ [newline])) ''kdb.wal''
     = (Inr \<lparr>file' = Some Open, seq = 1, filePath = ''kdb.wal''\<rparr>,
        world_with ''kdb.wal'' (sample_line @ [newline]))"
  by (simp add: NewWAL_def os_OpenFile_def getLastSequence_def os_Open_def Let_def
      world_with_simps scan_sample Unmarshal_sample sample_entry_def)

lemma NewWAL_negative:
  "NewWAL json_sample (world_with ''kdb.wal'' (negative_line @ [newline])) ''kdb.wal''
     = (Inr \<lparr>file' = Some Open, seq = 0, filePath = ''kdb.wal''\<rparr>,
        world_with ''kdb.wal'' (negative_line @ [newline]))"
  by (simp add: NewWAL_def os_OpenFile_def getLastSequence_def os_Open_def Let_def
      world_with_simps scan_negative Unmarshal_sample negative_entry_def)


section \<open>Checkpoint and the sequence counter\<close>

text \<open>
  Every \<open>Log\<close> call adds one to the counter of the log, whether it fails or not: the
  increment is the first statement of \<open>Log\<close> and nothing takes it back.
\<close>

lemma Log_counter:
  "Log J w W operation key val = (err, w1, W1) \<Longrightarrow> seq w1 = seq w + 1 \<and> filePath w1 = filePath w"
  by (auto simp: Log_def Let_def split: option.splits if_splits)

lemma Log_calls_counter:
  "Log_calls J w calls = (errs, w2) \<Longrightarrow>
     seq w2 = seq w + of_nat (length calls) \<and> filePath w2 = filePath w
     \<and> length errs = length calls"
proof (induction calls arbitrary: w errs w2)
  case Nil
  then show ?case by simp
next
  case (Cons c calls)
  obtain W operation key val where c: "c = (W, operation, key, val)" by (cases c)
  obtain err w1 W1 where l: "Log J w W operation key val = (err, w1, W1)" by (metis prod_cases3)
  obtain errs1 w3 where r: "Log_calls J w1 calls = (errs1, w3)" by fastforce
  from Cons.prems c l r have e: "errs = err # errs1" "w2 = w3" by simp_all
  from Cons.IH [OF r] Log_counter [OF l] e show ?case by simp
qed

text \<open>
  Claim C8, as amended. When \<open>Truncate\<close> returns no error (and so \<open>Checkpoint\<close>, which
  on a store with a log is that call), the file of the log is empty and the counter
  is 0. When the \<open>Log\<close> calls that follow all fail and the next one returns no error,
  the record this one has marshalled and appended carries the number of the failed
  calls plus one, in 64-bit arithmetic, and the counter is that number: 1 when no
  \<open>Log\<close> call failed in between, 2 after one failed call, and so on.
\<close>

theorem Truncate_then_Logs:
  assumes "Truncate w W = (None, w1, W1)"
      and "Log_calls J w1 calls = (errs, w2)"
      and "list_all (\<lambda>err. err \<noteq> None) errs"
      and "Log J w2 W2 operation key val = (None, w3, W3)"
  shows "files W1 (filePath w) = Some [] \<and> seq w1 = 0
         \<and> Checkpoint \<lparr>head = h, Size = n, wal = Some w\<rparr> W
             = (None, \<lparr>head = h, Size = n, wal = Some w1\<rparr>, W1)
         \<and> seq w3 = of_nat (length calls) + 1
         \<and> (\<exists>data. Marshal J \<lparr>Seq = of_nat (length calls) + 1, Operation = operation,
                              Key = key, Value = val, Timestamp = now W2\<rparr> = Some data
                 \<and> W3 = append_file W2 (filePath w) (data @ [newline]))"
proof -
  from assms(1) have t: "files W1 (filePath w) = Some []" "seq w1 = 0" "filePath w1 = filePath w"
    by (auto simp: Truncate_def Close_WAL_def os_OpenFile_def
        split: option.splits handle.splits if_splits prod.splits)
  have c: "Checkpoint \<lparr>head = h, Size = n, wal = Some w\<rparr> W
             = (None, \<lparr>head = h, Size = n, wal = Some w1\<rparr>, W1)"
    using assms(1) by (simp add: Checkpoint_def)
  from Log_calls_counter [OF assms(2)] t
  have s: "seq w2 = of_nat (length calls)" "filePath w2 = filePath w" by simp_all
  from assms(4) s have "seq w3 = of_nat (length calls) + 1
         \<and> (\<exists>data. Marshal J \<lparr>Seq = of_nat (length calls) + 1, Operation = operation,
                              Key = key, Value = val, Timestamp = now W2\<rparr> = Some data
                 \<and> W3 = append_file W2 (filePath w) (data @ [newline]))"
    by (auto simp: Log_def Let_def split: option.splits if_splits)
  with t c show ?thesis by simp
qed

text \<open>
  Claim C8, as amended, at a log whose counter is 7 and whose file holds one record:
  after \<open>Truncate\<close> the file is empty, a \<open>Log\<close> call fails on its write, and the next
  \<open>Log\<close> call writes its record with the number 2.
\<close>

theorem Truncate_then_Logs_witness:
  "Truncate \<lparr>file' = Some Open, seq = 7, filePath = ''kdb.wal''\<rparr>
      (world_with ''kdb.wal'' (second_line @ [newline]))
     = (None, \<lparr>file' = Some Open, seq = 0, filePath = ''kdb.wal''\<rparr>, world_with ''kdb.wal'' [])
   \<and> Log_calls json_sample \<lparr>file' = Some Open, seq = 0, filePath = ''kdb.wal''\<rparr>
        [(world_write_fails, ''PUT'', ''a'', ''1'')]
     = ([Some WriteError], \<lparr>file' = Some Open, seq = 1, filePath = ''kdb.wal''\<rparr>)
   \<and> list_all (\<lambda>err. err \<noteq> None) [Some WriteError]
   \<and> Log json_sample \<lparr>file' = Some Open, seq = 1, filePath = ''kdb.wal''\<rparr>
        (world_with ''kdb.wal'' []) ''PUT'' ''b'' ''2''
     = (None, \<lparr>file' = Some Open, seq = 2, filePath = ''kdb.wal''\<rparr>,
        world_with ''kdb.wal'' (second_line @ [newline]))
   \<and> Marshal json_sample second_entry = Some second_line
   \<and> Seq second_entry = of_nat (length [(world_write_fails, ''PUT'', ''a'', ''1'')]) + 1"
proof -
  have T: "Truncate \<lparr>file' = Some Open, seq = 7, filePath = ''kdb.wal''\<rparr>
      (world_with ''kdb.wal'' (second_line @ [newline]))
     = (None, \<lparr>file' = Some Open, seq = 0, filePath = ''kdb.wal''\<rparr>, world_with ''kdb.wal'' [])"
    by (simp add: Truncate_def Close_WAL_def os_OpenFile_def world_with_simps)
  have C: "Log_calls json_sample \<lparr>file' = Some Open, seq = 0, filePath = ''kdb.wal''\<rparr>
        [(world_write_fails, ''PUT'', ''a'', ''1'')]
     = ([Some WriteError], \<lparr>file' = Some Open, seq = 1, filePath = ''kdb.wal''\<rparr>)"
    by (simp add: Log_def Let_def Marshal_sample world_with_simps world_write_fails_def)
  have F: "list_all (\<lambda>err. err \<noteq> None) [Some WriteError]" by simp
  have L: "Log json_sample \<lparr>file' = Some Open, seq = 1, filePath = ''kdb.wal''\<rparr>
        (world_with ''kdb.wal'' []) ''PUT'' ''b'' ''2''
     = (None, \<lparr>file' = Some Open, seq = 2, filePath = ''kdb.wal''\<rparr>,
        world_with ''kdb.wal'' (second_line @ [newline]))"
    by (simp add: Log_def Let_def Marshal_sample world_with_simps)
  from Truncate_then_Logs [OF T C F L] T C L show ?thesis
    by (simp add: Marshal_sample second_entry_def)
qed

text \<open>
  Claim C8 as stated fails: after \<open>Truncate\<close>, a \<open>Log\<close> call whose sync fails has
  taken the number 1 (and left its record in the file), so the next successful
  \<open>Log\<close> call assigns 2, not 1.
\<close>

theorem Truncate_failed_Log_then_Log:
  "Truncate \<lparr>file' = Some Open, seq = 7, filePath = ''kdb.wal''\<rparr>
      (world_with ''kdb.wal'' (second_line @ [newline]))
     = (None, \<lparr>file' = Some Open, seq = 0, filePath = ''kdb.wal''\<rparr>, world_with ''kdb.wal'' [])
   \<and> Log json_sample \<lparr>file' = Some Open, seq = 0, filePath = ''kdb.wal''\<rparr>
        world_sync_fails ''PUT'' ''a'' ''1''
     = (Some SyncError, \<lparr>file' = Some Open, seq = 1, filePath = ''kdb.wal''\<rparr>,
        (world_with ''kdb.wal'' (sample_line @ [newline]))\<lparr>sync_fails := True\<rparr>)
   \<and> Log json_sample \<lparr>file' = Some Open, seq = 1, filePath = ''kdb.wal''\<rparr>
        (world_with ''kdb.wal'' (sample_line @ [newline])) ''PUT'' ''b'' ''2''
     = (None, \<lparr>file' = Some Open, seq = 2, filePath = ''kdb.wal''\<rparr>,
        world_with ''kdb.wal'' (sample_line @ [newline] @ second_line @ [newline]))
   \<and> Marshal json_sample second_entry = Some second_line
   \<and> Seq second_entry = 2"
  by (simp add: Truncate_def Close_WAL_def os_OpenFile_def Log_def Let_def Marshal_sample
      world_with_simps world_sync_fails_def)
     (simp add: world_with_def world_empty_def append_file_def Marshal_sample second_entry_def)

text \<open>
  When the \<open>Log\<close> call right after \<open>Truncate\<close> returns no error, its record carries the
  number 1 and is the whole content of the file.
\<close>

lemma Truncate_then_first_Log:
  assumes "Truncate w W = (None, w1, W1)"
      and "Log J w1 W1 operation key val = (None, w2, W2)"
  shows "files W1 (filePath w) = Some [] \<and> seq w1 = 0 \<and> filePath w1 = filePath w \<and> seq w2 = 1 \<and>
         (\<exists>data. Marshal J \<lparr>Seq = 1, Operation = operation, Key = key, Value = val,
                              Timestamp = now W1\<rparr> = Some data
                 \<and> files W2 (filePath w) = Some (data @ [newline]))"
proof -
  from assms(1) have t: "files W1 (filePath w) = Some []" "seq w1 = 0" "filePath w1 = filePath w"
    by (auto simp: Truncate_def Close_WAL_def os_OpenFile_def
        split: option.splits handle.splits if_splits prod.splits)
  from assms(2) t show ?thesis
    by (auto simp: Log_def Let_def append_file_def split: option.splits if_splits)
qed


section \<open>A failed log write\<close>

text \<open>
  Claim C6. On a store with a log, for a key that \<open>checkIsDuplicateKey\<close> does not
  report, when the \<open>Log\<close> call of \<open>Put\<close> returns an error, \<open>Put\<close> returns \<open>(false, value)\<close>
  and the tree is as before: same root, same \<open>Size\<close>, and \<open>Get\<close> gives the same result
  for every key.
\<close>

theorem Put_Log_failure:
  assumes "wal db = Some w"
      and "\<not> checkIsDuplicateKey db key"
      and "Log J w W ''PUT'' key val = (Some err, w1, W1)"
  shows "case Put J db W key val of
           (r, db1, W2) \<Rightarrow>
             r = (False, val) \<and> head db1 = head db \<and> Size db1 = Size db
             \<and> (\<forall>k. Get db1 k = Get db k)"
  using assms by (simp add: Put_def Get_def)

text \<open>
  Claim C6 at a store whose log file was closed: the write fails, \<open>Put\<close> of "a"
  returns false and the tree stays empty.
\<close>

theorem Put_Log_failure_witness:
  "wal \<lparr>head = None, Size = 0, wal = Some \<lparr>file' = Some Closed, seq = 0, filePath = ''kdb.wal''\<rparr>\<rparr>
     = Some \<lparr>file' = Some Closed, seq = 0, filePath = ''kdb.wal''\<rparr>
   \<and> \<not> checkIsDuplicateKey
         \<lparr>head = None, Size = 0, wal = Some \<lparr>file' = Some Closed, seq = 0, filePath = ''kdb.wal''\<rparr>\<rparr> ''a''
   \<and> Log json_sample \<lparr>file' = Some Closed, seq = 0, filePath = ''kdb.wal''\<rparr>
        (world_with ''kdb.wal'' []) ''PUT'' ''a'' ''1''
       = (Some WriteError, \<lparr>file' = Some Closed, seq = 1, filePath = ''kdb.wal''\<rparr>,
          world_with ''kdb.wal'' [])
   \<and> (case Put json_sample
              \<lparr>head = None, Size = 0, wal = Some \<lparr>file' = Some Closed, seq = 0, filePath = ''kdb.wal''\<rparr>\<rparr>
              (world_with ''kdb.wal'' []) ''a'' ''1'' of
         (r, db1, W2) \<Rightarrow> r = (False, ''1'') \<and> head db1 = None \<and> Size db1 = 0
            \<and> Get db1 ''a'' = ([], False))"
proof -
  let ?w = "\<lparr>file' = Some Closed, seq = 0, filePath = ''kdb.wal''\<rparr>"
  let ?db = "\<lparr>head = None, Size = 0, wal = Some ?w\<rparr>"
  have a: "wal ?db = Some ?w" by simp
  have b: "\<not> checkIsDuplicateKey ?db ''a''" by (simp add: checkIsDuplicateKey_def)
  have c: "Log json_sample ?w (world_with ''kdb.wal'' []) ''PUT'' ''a'' ''1''
       = (Some WriteError, \<lparr>file' = Some Closed, seq = 1, filePath = ''kdb.wal''\<rparr>,
          world_with ''kdb.wal'' [])"
    by (simp add: Log_def Let_def Marshal_sample world_with_simps)
  from Put_Log_failure [OF a b c] a b c show ?thesis
    by (auto simp: Get_def split: prod.splits)
qed


section \<open>The first sequence number after opening\<close>

lemma Max_insert_smaller:
  fixes a b :: int
  assumes "finite A" and "a \<le> b"
  shows "Max (insert a (insert b A)) = Max (insert b A)"
proof -
  have "b \<le> Max (insert b A)" using assms(1) by (intro Max_ge) auto
  then have "max a (Max (insert b A)) = Max (insert b A)" using assms(2) by linarith
  moreover have "Max (insert a (insert b A)) = max a (Max (insert b A))"
    using assms(1) by (intro Max_insert) auto
  ultimately show ?thesis by simp
qed

lemma lastSeq_loop_Max:
  "sint (lastSeq_loop J ls s) =
     Max (set (sint s # map (\<lambda>e. sint (Seq e)) (List.map_filter (Unmarshal J) ls)))"
proof (induction ls arbitrary: s)
  case Nil
  then show ?case by (simp add: List.map_filter_simps)
next
  case (Cons l ls)
  show ?case
  proof (cases "Unmarshal J l")
    case None
    then show ?thesis using Cons.IH [of s] by (simp add: List.map_filter_simps)
  next
    case (Some e)
    define R where "R = set (map (\<lambda>e. sint (Seq e)) (List.map_filter (Unmarshal J) ls))"
    have fin: "finite R" by (simp add: R_def)
    have mf: "set (sint s # map (\<lambda>e. sint (Seq e)) (List.map_filter (Unmarshal J) (l # ls)))
                = insert (sint s) (insert (sint (Seq e)) R)"
      using Some by (simp add: List.map_filter_simps R_def)
    show ?thesis
    proof (cases "sint (Seq e) > sint s")
      case True
      have "lastSeq_loop J (l # ls) s = lastSeq_loop J ls (Seq e)"
        using Some True by simp
      moreover have "Max (insert (sint s) (insert (sint (Seq e)) R)) = Max (insert (sint (Seq e)) R)"
        using True fin by (intro Max_insert_smaller) auto
      ultimately show ?thesis using Cons.IH [of "Seq e"] mf by (simp add: R_def)
    next
      case False
      have "lastSeq_loop J (l # ls) s = lastSeq_loop J ls s"
        using Some False by simp
      moreover have "Max (insert (sint (Seq e)) (insert (sint s) R)) = Max (insert (sint s) R)"
        using False fin by (intro Max_insert_smaller) auto
      then have "Max (insert (sint s) (insert (sint (Seq e)) R)) = Max (insert (sint s) R)"
        by (simp add: insert_commute)
      ultimately show ?thesis using Cons.IH [of s] mf by (simp add: R_def)
    qed
  qed
qed

text \<open>
  Claim C9, as amended. When \<open>NewWAL\<close> succeeds, the counter of the log is the largest
  of 0 and the sequence numbers of the records decoded from the lines the scanner
  yields from the file as it was (no line for a new file), compared as signed
  64-bit values. The \<open>Log\<close> call that follows assigns the counter plus one, in 64-bit
  arithmetic: when it returns no error, the record it has marshalled and appended
  carries that number. So the first number is 1 when the file is new or empty, holds
  no record that decodes, or holds only records numbered 0 or below.
\<close>

theorem NewWAL_first_sequence:
  assumes "NewWAL J W path = (Inr w, W1)"
      and "Log J w W2 operation key val = (None, w2, W3)"
  shows "sint (seq w) =
           Max (set (0 # map (\<lambda>e. sint (Seq e))
                 (List.map_filter (Unmarshal J)
                    (fst (scanLines (case files W path of None \<Rightarrow> [] | Some c \<Rightarrow> c))))))
         \<and> seq w2 = seq w + 1
         \<and> (\<exists>data. Marshal J \<lparr>Seq = seq w + 1, Operation = operation, Key = key, Value = val,
                                Timestamp = now W2\<rparr> = Some data
                   \<and> W3 = append_file W2 path (data @ [newline]))"
proof -
  from assms(1) have nf: "\<not> open_fails W path"
    by (auto simp: NewWAL_def os_OpenFile_def split: if_splits)
  define content where "content = (case files W path of None \<Rightarrow> [] | Some c \<Rightarrow> c)"
  from assms(1) nf have w: "w = \<lparr>file' = Some Open, seq = lastSeq_loop J (fst (scanLines content)) 0, filePath = path\<rparr>"
    by (auto simp: NewWAL_def os_OpenFile_def getLastSequence_def os_Open_def content_def Let_def
        split: if_splits option.splits)
  then have "sint (seq w) = Max (set (0 # map (\<lambda>e. sint (Seq e))
                 (List.map_filter (Unmarshal J) (fst (scanLines content)))))"
    using lastSeq_loop_Max [of J "fst (scanLines content)" 0] by simp
  moreover from assms(2) w have "seq w2 = seq w + 1
         \<and> (\<exists>data. Marshal J \<lparr>Seq = seq w + 1, Operation = operation, Key = key, Value = val,
                                Timestamp = now W2\<rparr> = Some data
                   \<and> W3 = append_file W2 path (data @ [newline]))"
    by (auto simp: Log_def Let_def split: option.splits if_splits)
  ultimately show ?thesis by (simp add: content_def)
qed

text \<open>
  Claim C9 at a file that holds the sample record, numbered 1: the counter is 1
  after opening and \<open>Log\<close> writes the next record with number 2.
\<close>

theorem NewWAL_first_sequence_witness:
  "NewWAL json_sample (world_with ''kdb.wal'' (sample_line @ [newline])) ''kdb.wal''
     = (Inr \<lparr>file' = Some Open, seq = 1, filePath = ''kdb.wal''\<rparr>,
        world_with ''kdb.wal'' (sample_line @ [newline]))
   \<and> Log json_sample \<lparr>file' = Some Open, seq = 1, filePath = ''kdb.wal''\<rparr>
        (world_with ''kdb.wal'' (sample_line @ [newline])) ''PUT'' ''b'' ''2''
       = (None, \<lparr>file' = Some Open, seq = 2, filePath = ''kdb.wal''\<rparr>,
          world_with ''kdb.wal'' (sample_line @ [newline] @ second_line @ [newline]))
   \<and> Max (set (0 # map (\<lambda>e. sint (Seq e))
         (List.map_filter (Unmarshal json_sample) (fst (scanLines (sample_line @ [newline])))))) = 1"
proof -
  let ?W = "world_with ''kdb.wal'' (sample_line @ [newline])"
  have L: "Log json_sample \<lparr>file' = Some Open, seq = 1, filePath = ''kdb.wal''\<rparr> ?W ''PUT'' ''b'' ''2''
       = (None, \<lparr>file' = Some Open, seq = 2, filePath = ''kdb.wal''\<rparr>,
          world_with ''kdb.wal'' (sample_line @ [newline] @ second_line @ [newline]))"
    by (simp add: Log_def Let_def Marshal_sample world_with_simps)
  from NewWAL_first_sequence [OF NewWAL_sample L] NewWAL_sample L show ?thesis
    by (simp add: world_with_simps)
qed

text \<open>
  Claim C9 as stated fails on a file whose only record is numbered -5: the largest
  sequence number plus one is -4, and the first \<open>Log\<close> after opening assigns 1.
\<close>

theorem NewWAL_negative_sequence:
  "(case NewWAL json_sample (world_with ''kdb.wal'' (negative_line @ [newline])) ''kdb.wal'' of
      (Inr w, W1) \<Rightarrow>
        List.map_filter (Unmarshal json_sample) (fst (scanLines (negative_line @ [newline])))
          = [negative_entry]
        \<and> sint (Seq negative_entry) + 1 = - 4
        \<and> Log json_sample w W1 ''PUT'' ''a'' ''1''
            = (None, w\<lparr>seq := 1\<rparr>,
               world_with ''kdb.wal'' (negative_line @ [newline] @ sample_line @ [newline]))
        \<and> Marshal json_sample sample_entry = Some sample_line \<and> sint (Seq sample_entry) = 1
    | (Inl e, W1) \<Rightarrow> False)"
  by (simp add: NewWAL_negative scan_negative List.map_filter_simps Unmarshal_sample
      Log_def Let_def Marshal_sample world_with_simps)
     (simp add: negative_entry_def sample_entry_def Marshal_sample)


section \<open>Durability across a restart\<close>

text \<open>
  Claim C4. Take a path with no file, a world in which opening that path, writing
  and syncing do not fail, and a JSON encoding that writes the record of
  \<open>Put("a", "1")\<close> as one line below the scanner's limit and decodes that line to a
  \<open>PUT\<close> record with the key "a" and the value "1". Then opening a store on the path
  succeeds, \<open>Put("a", "1")\<close> returns \<open>(true, "1")\<close>, \<open>Close\<close> returns no error, opening a
  store on the same path again succeeds, and on that store \<open>Get("a")\<close> returns
  \<open>("1", true)\<close> and \<open>Size\<close> is 1, with no further \<open>Put\<close> call.
\<close>

theorem roundtrip_durability:
  assumes fresh: "files W path = None"
      and ok: "\<not> open_fails W path" "\<not> write_fails W" "\<not> sync_fails W"
      and enc: "Marshal J \<lparr>Seq = 1, Operation = ''PUT'', Key = ''a'', Value = ''1'',
                            Timestamp = now W\<rparr> = Some data"
      and line: "newline \<notin> set data" "length data < MaxScanTokenSize"
      and dec: "Unmarshal J (dropCR data) = Some entry"
               "Operation entry = ''PUT''" "Key entry = ''a''" "Value entry = ''1''"
  shows "case newKDBWithWAL J W path of
           (Inr db0, W0) \<Rightarrow>
             (case Put J db0 W0 ''a'' ''1'' of
                (r, db1, W1) \<Rightarrow>
                  r = (True, ''1'') \<and>
                  (case Close db1 of
                     (cerr, db2) \<Rightarrow>
                       cerr = None \<and>
                       (case newKDBWithWAL J W1 path of
                          (Inr db3, W3) \<Rightarrow>
                            Get db3 ''a'' = (''1'', True) \<and> Size db3 = 1
                        | (Inl e, W3) \<Rightarrow> False)))
         | (Inl e, W0) \<Rightarrow> False"
proof -
  define W0 where "W0 = W\<lparr>files := (files W)(path \<mapsto> [])\<rparr>"
  define w0 where "w0 = \<lparr>file' = Some Open, seq = 0, filePath = path\<rparr>"
  define db0 where "db0 = \<lparr>head = None, Size = 0, wal = Some w0\<rparr>"
  have open0: "newKDBWithWAL J W path = (Inr db0, W0)"
    using fresh ok(1)
    by (simp add: newKDBWithWAL_def NewWAL_def os_OpenFile_def getLastSequence_def os_Open_def
        recoverFromWAL_def Recover_def Let_def W0_def w0_def db0_def)
  define W1 where "W1 = W0\<lparr>files := (files W0)(path \<mapsto> data @ [newline])\<rparr>"
  define db1 where "db1 = \<lparr>head = Some (newLeaf (HashStringToInt ''a'') (Some ''1'')), Size = 1,
                            wal = Some (w0\<lparr>seq := 1\<rparr>)\<rparr>"
  have put: "Put J db0 W0 ''a'' ''1'' = ((True, ''1''), db1, W1)"
    using ok(2,3) enc
    by (simp add: Put_def checkIsDuplicateKey_def Log_def Let_def insert'_def append_file_def
        W0_def w0_def db0_def W1_def db1_def)
  have close: "Close db1 = (None, db1\<lparr>wal := Some (w0\<lparr>seq := 1, file' := Some Closed\<rparr>)\<rparr>)"
    by (simp add: Close_def Close_WAL_def db1_def w0_def)
  have f1: "files W1 path = Some (data @ [newline])" "\<not> open_fails W1 path"
    using ok(1) by (simp_all add: W1_def W0_def)
  have scan: "scanLines (data @ [newline]) = ([dropCR data], False)"
    using line scanLines_line [of data "[]"] by simp
  obtain s where new1: "NewWAL J W1 path = (Inr \<lparr>file' = Some Open, seq = s, filePath = path\<rparr>, W1)"
    using f1 by (simp add: NewWAL_def os_OpenFile_def Let_def)
  have rec: "Recover J \<lparr>file' = Some Open, seq = s, filePath = path\<rparr> W1 = Inr [entry]"
    using f1 scan dec(1) by (simp add: Recover_def os_Open_def)
  have rep: "replay J \<lparr>head = None, Size = 0, wal = None\<rparr> W1 [entry]
               = (\<lparr>head = Some (newLeaf (HashStringToInt ''a'') (Some ''1'')), Size = 1, wal = None\<rparr>, W1)"
    using dec(2-4) by (simp add: Put_def checkIsDuplicateKey_def insert'_def)
  have open1: "newKDBWithWAL J W1 path =
       (Inr \<lparr>head = Some (newLeaf (HashStringToInt ''a'') (Some ''1'')), Size = 1,
             wal = Some \<lparr>file' = Some Open, seq = s, filePath = path\<rparr>\<rparr>, W1)"
    by (simp add: newKDBWithWAL_def new1 recoverFromWAL_def rec rep del: replay.simps)
  show ?thesis
    by (simp add: open0 put close open1 Get_def newLeaf_def)
qed

text \<open>
  Claim C4 with the sample encoding, in the world without files: the record of
  \<open>Put("a", "1")\<close> is the first sample line.
\<close>

theorem roundtrip_durability_witness:
  "(case newKDBWithWAL json_sample world_empty ''kdb.wal'' of
     (Inr db0, W0) \<Rightarrow>
       (case Put json_sample db0 W0 ''a'' ''1'' of
          (r, db1, W1) \<Rightarrow>
            r = (True, ''1'') \<and>
            (case Close db1 of
               (cerr, db2) \<Rightarrow>
                 cerr = None \<and>
                 (case newKDBWithWAL json_sample W1 ''kdb.wal'' of
                    (Inr db3, W3) \<Rightarrow> Get db3 ''a'' = (''1'', True) \<and> Size db3 = 1
                  | (Inl e, W3) \<Rightarrow> False)))
   | (Inl e, W0) \<Rightarrow> False)"
proof -
  have h: "files world_empty ''kdb.wal'' = None" "\<not> open_fails world_empty ''kdb.wal''"
    "\<not> write_fails world_empty" "\<not> sync_fails world_empty"
    "Marshal json_sample \<lparr>Seq = 1, Operation = ''PUT'', Key = ''a'', Value = ''1'',
                            Timestamp = now world_empty\<rparr> = Some sample_line"
    "newline \<notin> set sample_line" "length sample_line < MaxScanTokenSize"
    "Unmarshal json_sample (dropCR sample_line) = Some sample_entry"
    "Operation sample_entry = ''PUT''" "Key sample_entry = ''a''" "Value sample_entry = ''1''"
    using sample_line_ok
    by (simp_all add: world_empty_def Marshal_sample Unmarshal_sample sample_entry_def)
  show ?thesis by (rule roundtrip_durability [OF h])
qed

end
